theory Spec2Isabelle
  imports Complex_Main
begin

section \<open>Beam search decoding\<close>

subsection \<open>Errors and fallible list access\<close>

text \<open>
  The exceptions the search can raise by itself: an out-of-range subscript, the division
  by an empty token count, the axis swap of an array that has no second axis, and the
  value error of an array operation on shapes that do not fit.
\<close>

datatype error = IndexError | ZeroDivisionError | AxisError | ValueError

definition bind :: "error + 'a \<Rightarrow> ('a \<Rightarrow> error + 'b) \<Rightarrow> error + 'b" where
  "bind r f = (case r of Inl e \<Rightarrow> Inl e | Inr x \<Rightarrow> f x)"

text \<open>\<open>xs[i]\<close> for a non-negative index.\<close>

definition subscript :: "'a list \<Rightarrow> nat \<Rightarrow> error + 'a" where
  "subscript xs i = (if i < length xs then Inr (xs ! i) else Inl IndexError)"

text \<open>A comprehension \<open>[f x for x in xs]\<close> whose body may raise: the first failure wins.\<close>

fun comprehension :: "('a \<Rightarrow> error + 'b) \<Rightarrow> 'a list \<Rightarrow> error + 'b list" where
  "comprehension f [] = Inr []"
| "comprehension f (x # xs) =
     (case f x of Inl e \<Rightarrow> Inl e
      | Inr y \<Rightarrow> (case comprehension f xs of Inl e \<Rightarrow> Inl e | Inr ys \<Rightarrow> Inr (y # ys)))"

subsection \<open>Log probabilities\<close>

text \<open>
  A log probability is a float that is finite or \<open>-np.infty\<close>. Finite floats are taken
  as reals; \<open>NegInf\<close> is below every finite value, absorbs addition and stays itself
  when divided by a positive count. Positive infinity and not-a-number, which no log
  of a probability yields, are left out, and so is rounding.
\<close>

datatype logp = NegInf | Fin real

instantiation logp :: linorder
begin

fun less_eq_logp :: "logp \<Rightarrow> logp \<Rightarrow> bool" where
  "less_eq_logp NegInf _ = True"
| "less_eq_logp (Fin x) NegInf = False"
| "less_eq_logp (Fin x) (Fin y) = (x \<le> y)"

definition less_logp :: "logp \<Rightarrow> logp \<Rightarrow> bool" where
  "less_logp a b = (a \<le> b \<and> \<not> b \<le> a)"

instance
proof
  fix x y z :: logp
  show "(x < y) = (x \<le> y \<and> \<not> y \<le> x)"
    by (simp add: less_logp_def)
  show "x \<le> x"
    by (cases x) simp_all
  show "x \<le> y \<Longrightarrow> y \<le> z \<Longrightarrow> x \<le> z"
    by (cases x; cases y; cases z) simp_all
  show "x \<le> y \<Longrightarrow> y \<le> x \<Longrightarrow> x = y"
    by (cases x; cases y) simp_all
  show "x \<le> y \<or> y \<le> x"
    by (cases x; cases y) auto
qed

end

fun add_logp :: "logp \<Rightarrow> logp \<Rightarrow> logp" where
  "add_logp (Fin x) (Fin y) = Fin (x + y)"
| "add_logp _ _ = NegInf"

text \<open>\<open>sum(xs)\<close> starts from 0 and adds from the left.\<close>

definition sum_logp :: "logp list \<Rightarrow> logp" where
  "sum_logp xs = foldl add_logp (Fin 0) xs"

text \<open>
  \<open>x / n\<close> for a float \<open>x\<close> and a list length \<open>n\<close>. A hypothesis without tokens
  has, by the contract of its constructor, no log probabilities either; their sum is
  then the integer 0, and \<open>0 / 0\<close> raises. A sum of numpy scalars divided by 0 would
  give an infinity or not-a-number with a warning instead: that needs log
  probabilities without tokens, and is not modelled.
\<close>

fun div_logp :: "logp \<Rightarrow> nat \<Rightarrow> error + logp" where
  "div_logp x 0 = Inl ZeroDivisionError"
| "div_logp NegInf (Suc n) = Inr NegInf"
| "div_logp (Fin x) (Suc n) = Inr (Fin (x / real (Suc n)))"

subsection \<open>Configuration and vocabulary\<close>

record flags =
  beam_size :: int
  max_dec_steps :: int
  min_dec_steps :: int
  avoid_trigrams :: bool
  intradecoder :: bool
  use_temporal_attention :: bool
  ac_training :: bool
  dec_hidden_dim :: nat

text \<open>
  The vocabulary as the search reads it: the ids of the start, stop and unknown
  tokens, and its size.
\<close>

record vocab =
  start_id :: int
  stop_id :: int
  unk_id :: int
  vocab_size :: int

subsection \<open>Hypothesis\<close>

type_synonym vec = "real list"
type_synonym lstm_state = "vec \<times> vec"

record hypothesis =
  tokens :: "int list"
  log_probs :: "logp list"
  state :: lstm_state
  decoder_output :: "vec list"
  encoder_mask :: "vec list"
  attn_dists :: "vec list"
  p_gens :: "real list"
  coverage :: vec

subsection \<open>The collaborators\<close>

text \<open>
  The sequence model and the value estimator are outside the search. One decoder step
  maps the batched inputs to the batched outputs; the value-estimator path maps the
  decoder outputs and the full distributions to the ids and log probabilities that
  replace the model's top-k. Both are parameters here, and so are the decoder's initial
  state and the attention length \<open>batch.enc_batch.shape[1]\<close> that the encoder run fixes.
  A collaborator always answers: an exception raised inside the model is not part of
  the search. What the search does with an answer of the wrong shape is modelled, as
  the failing subscript.
\<close>

record dec_in =
  latest_tokens :: "int list"
  dec_init_states :: "lstm_state list"
  prev_coverage :: "vec list"
  prev_decoder_outputs :: "vec list list"
  prev_encoder_es :: "vec list list"

record dec_out =
  topk_ids :: "int list list"
  topk_log_probs :: "logp list list"
  new_states :: "lstm_state list"
  step_attn_dists :: "vec list"
  final_dists :: "vec list"
  step_p_gens :: "real list"
  new_coverage :: "vec list"
  step_decoder_output :: "vec list"
  encoder_e :: "vec list"

record collaborators =
  decode_onestep :: "dec_in \<Rightarrow> dec_out"
  dqn_topk :: "vec list \<Rightarrow> vec list \<Rightarrow> int list list \<times> logp list list"
  dec_in_state :: lstm_state
  attn_length :: nat

subsection \<open>Extending a hypothesis\<close>

text \<open>\<open>zip(*ls)\<close>: the tuples of the i-th elements, as long as every list has one.\<close>

function zip_star :: "'a list list \<Rightarrow> 'a list list" where
  "zip_star ls =
     (if ls = [] \<or> (\<exists>l \<in> set ls. l = []) then []
      else map hd ls # zip_star (map tl ls))"
  by pat_completeness auto
termination
proof (relation "measure (\<lambda>ls. length (hd ls))")
  show "wf (measure (\<lambda>ls::'a list list. length (hd ls)))"
    by simp
next
  fix ls :: "'a list list"
  assume "\<not> (ls = [] \<or> (\<exists>l \<in> set ls. l = []))"
  then have "ls \<noteq> []" and "hd ls \<noteq> []"
    by (auto dest: hd_in_set)
  then show "(map tl ls, ls) \<in> measure (\<lambda>ls. length (hd ls))"
    by (cases ls) (auto simp: less_Suc_eq_le)
qed

declare zip_star.simps [simp del]

definition find_ngrams :: "'a list \<Rightarrow> nat \<Rightarrow> 'a list list" where
  "find_ngrams input_list n = zip_star (map (\<lambda>i. drop i input_list) [0..<n])"

text \<open>
  The counter maps every trigram of the list to its number of occurrences; the test
  fails as soon as one of its keys has a count other than 1.
\<close>

definition has_trigram :: "int list \<Rightarrow> bool" where
  "has_trigram toks =
     (let tri_grams = find_ngrams toks 3
      in \<not> (\<forall>g \<in> set tri_grams. count_list tri_grams g = 1))"

definition extend ::
  "flags \<Rightarrow> hypothesis \<Rightarrow> int \<Rightarrow> logp \<Rightarrow> lstm_state \<Rightarrow> vec option \<Rightarrow> vec option \<Rightarrow>
     vec \<Rightarrow> real \<Rightarrow> vec \<Rightarrow> hypothesis" where
  "extend F h token log_prob st dec_out enc_mask attn_dist p_gen cov =
     (let log_prob' =
        (if avoid_trigrams F \<and> has_trigram (tokens h @ [token]) then NegInf else log_prob)
      in \<lparr> tokens = tokens h @ [token],
           log_probs = log_probs h @ [log_prob'],
           state = st,
           decoder_output =
             (case dec_out of Some d \<Rightarrow> decoder_output h @ [d] | None \<Rightarrow> []),
           encoder_mask =
             (case enc_mask of Some m \<Rightarrow> encoder_mask h @ [m] | None \<Rightarrow> []),
           attn_dists = attn_dists h @ [attn_dist],
           p_gens = p_gens h @ [p_gen],
           coverage = cov \<rparr>)"

definition latest_token :: "hypothesis \<Rightarrow> error + int" where
  "latest_token h = (if tokens h = [] then Inl IndexError else Inr (last (tokens h)))"

definition log_prob :: "hypothesis \<Rightarrow> logp" where
  "log_prob h = sum_logp (log_probs h)"

definition avg_log_prob :: "hypothesis \<Rightarrow> error + logp" where
  "avg_log_prob h = div_logp (log_prob h) (length (tokens h))"


text \<open>
  \<open>sorted(hyps, key=lambda h: h.avg_log_prob, reverse=True)\<close>: the keys are computed
  first (one failure aborts the sort); the sort is stable, and \<open>reverse=True\<close>
  keeps hypotheses of equal key in their original order, which is the stable
  ascending sort of the reversed list, reversed.
\<close>

definition sort_hyps :: "hypothesis list \<Rightarrow> error + hypothesis list" where
  "sort_hyps hs =
     (case comprehension avg_log_prob hs of
        Inl e \<Rightarrow> Inl e
      | Inr keys \<Rightarrow> Inr (map snd (rev (sort_key fst (rev (zip keys hs))))))"

subsection \<open>The search\<close>

definition init_hyps :: "flags \<Rightarrow> vocab \<Rightarrow> collaborators \<Rightarrow> hypothesis list" where
  "init_hyps F V C =
     replicate (nat (beam_size F))
       \<lparr> tokens = [start_id V],
         log_probs = [Fin 0],
         state = dec_in_state C,
         decoder_output = [replicate (dec_hidden_dim F) 0],
         encoder_mask = [replicate (attn_length C) 0],
         attn_dists = [],
         p_gens = [],
         coverage = replicate (attn_length C) 0 \<rparr>"

text \<open>
  \<open>np.array(rows).swapaxes(0, 1)\<close>: the array of no rows has one axis only, and so
  has the array of rows of different lengths; both make the swap fail.
\<close>

definition swapaxes01 :: "'a list list \<Rightarrow> error + 'a list list" where
  "swapaxes01 rows =
     (if rows = [] \<or> (\<exists>r \<in> set rows. length r \<noteq> length (hd rows)) then Inl AxisError
      else Inr (transpose rows))"

text \<open>Lines 130 to 144: what the one model call of a step receives.\<close>

definition model_inputs :: "flags \<Rightarrow> vocab \<Rightarrow> hypothesis list \<Rightarrow> error + dec_in" where
  "model_inputs F V hyps =
     bind (comprehension latest_token hyps) (\<lambda>lts.
     bind (swapaxes01 (map decoder_output hyps)) (\<lambda>decoder_outputs.
     bind (swapaxes01 (map encoder_mask hyps)) (\<lambda>encoder_es.
       Inr \<lparr> latest_tokens =
               map (\<lambda>t. if 0 \<le> t \<and> t < vocab_size V then t else unk_id V) lts,
             dec_init_states = map state hyps,
             prev_coverage = map coverage hyps,
             prev_decoder_outputs = (if intradecoder F then decoder_outputs else []),
             prev_encoder_es = (if use_temporal_attention F then encoder_es else []) \<rparr>)))"

definition subscript2 :: "'a list list \<Rightarrow> nat \<Rightarrow> nat \<Rightarrow> error + 'a" where
  "subscript2 m i j = bind (subscript m i) (\<lambda>row. subscript row j)"

text \<open>Lines 165 to 182: the candidates of the i-th hypothesis.\<close>

definition expand_hyp ::
  "flags \<Rightarrow> hypothesis list \<Rightarrow> dec_out \<Rightarrow> int list list \<Rightarrow> logp list list \<Rightarrow> nat \<Rightarrow>
     error + hypothesis list" where
  "expand_hyp F hyps out ids lps i =
     bind (subscript hyps i) (\<lambda>h.
     bind (subscript (new_states out) i) (\<lambda>new_state.
     bind (subscript (step_attn_dists out) i) (\<lambda>attn_dist.
     bind (subscript (step_p_gens out) i) (\<lambda>p_gen.
     bind (subscript (new_coverage out) i) (\<lambda>new_coverage_i.
     bind (if intradecoder F then map_sum id Some (subscript (step_decoder_output out) i)
           else Inr None) (\<lambda>decoder_output_i.
     bind (if use_temporal_attention F then map_sum id Some (subscript (encoder_e out) i)
           else Inr None) (\<lambda>encoder_mask_i.
       comprehension
         (\<lambda>j. bind (subscript2 ids i j) (\<lambda>token.
              bind (subscript2 lps i j) (\<lambda>lp.
                Inr (extend F h token lp new_state decoder_output_i encoder_mask_i
                       attn_dist p_gen new_coverage_i))))
         [0..<nat (beam_size F * 2)])))))))"

definition num_orig_hyps :: "nat \<Rightarrow> hypothesis list \<Rightarrow> nat" where
  "num_orig_hyps steps hyps = (if steps = 0 then 1 else length hyps)"

text \<open>
  What a candidate keeps of the hypothesis it extends: one more token, and one more
  entry in each auxiliary history that is fed back, none in the others.
\<close>

definition child_of :: "flags \<Rightarrow> hypothesis \<Rightarrow> hypothesis \<Rightarrow> bool" where
  "child_of F h c =
     (tokens c \<noteq> [] \<and> butlast (tokens c) = tokens h \<and>
      length (decoder_output c) = (if intradecoder F then Suc (length (decoder_output h)) else 0) \<and>
      length (encoder_mask c) =
        (if use_temporal_attention F then Suc (length (encoder_mask h)) else 0))"

text \<open>
  Lines 146 to 159: with the value estimator, its ids and log probabilities replace the
  model's top-k.
\<close>

definition topk :: "flags \<Rightarrow> collaborators \<Rightarrow> dec_out \<Rightarrow> int list list \<times> logp list list" where
  "topk F C out =
     (if ac_training F then dqn_topk C (step_decoder_output out) (final_dists out)
      else (topk_ids out, topk_log_probs out))"

text \<open>Lines 130 to 182: the model call and \<open>all_hyps\<close>.\<close>

definition candidates ::
  "flags \<Rightarrow> vocab \<Rightarrow> collaborators \<Rightarrow> nat \<Rightarrow> hypothesis list \<Rightarrow> error + hypothesis list" where
  "candidates F V C steps hyps =
     bind (model_inputs F V hyps) (\<lambda>inp.
       let out = decode_onestep C inp;
           (ids, lps) = topk F C out
       in bind (comprehension (expand_hyp F hyps out ids lps) [0..<num_orig_hyps steps hyps])
            (\<lambda>rows. Inr (concat rows)))"

text \<open>Lines 187 to 192: where one candidate goes.\<close>

definition route ::
  "flags \<Rightarrow> vocab \<Rightarrow> nat \<Rightarrow> hypothesis \<Rightarrow> hypothesis list \<Rightarrow> hypothesis list \<Rightarrow>
     error + (hypothesis list \<times> hypothesis list)" where
  "route F V steps h hyps results =
     bind (latest_token h) (\<lambda>t.
       if t = stop_id V then
         (if int steps \<ge> min_dec_steps F then Inr (hyps, results @ [h])
          else Inr (hyps, results))
       else Inr (hyps @ [h], results))"

definition full :: "flags \<Rightarrow> hypothesis list \<Rightarrow> hypothesis list \<Rightarrow> bool" where
  "full F hyps results =
     (int (length hyps) = beam_size F \<or> int (length results) = beam_size F)"

text \<open>Lines 186 to 195: the scan of the sorted candidates, with its break.\<close>

fun collect_hyps ::
  "flags \<Rightarrow> vocab \<Rightarrow> nat \<Rightarrow> hypothesis list \<Rightarrow> hypothesis list \<Rightarrow> hypothesis list \<Rightarrow>
     error + (hypothesis list \<times> hypothesis list)" where
  "collect_hyps F V steps [] hyps results = Inr (hyps, results)"
| "collect_hyps F V steps (h # rest) hyps results =
     (case route F V steps h hyps results of
        Inl e \<Rightarrow> Inl e
      | Inr (hyps', results') \<Rightarrow>
          if full F hyps' results' then Inr (hyps', results')
          else collect_hyps F V steps rest hyps' results')"

text \<open>The candidates that the scan visits: up to and including the one it breaks at.\<close>

fun visited ::
  "flags \<Rightarrow> vocab \<Rightarrow> nat \<Rightarrow> hypothesis list \<Rightarrow> hypothesis list \<Rightarrow> hypothesis list \<Rightarrow>
     hypothesis list" where
  "visited F V steps [] hyps results = []"
| "visited F V steps (h # rest) hyps results =
     (case route F V steps h hyps results of
        Inl e \<Rightarrow> [h]
      | Inr (hyps', results') \<Rightarrow>
          if full F hyps' results' then [h]
          else h # visited F V steps rest hyps' results')"

text \<open>One iteration of the while loop, without the increment of \<open>steps\<close>.\<close>

definition decode_step ::
  "flags \<Rightarrow> vocab \<Rightarrow> collaborators \<Rightarrow> nat \<Rightarrow> hypothesis list \<Rightarrow> hypothesis list \<Rightarrow>
     error + (hypothesis list \<times> hypothesis list)" where
  "decode_step F V C steps hyps results =
     bind (candidates F V C steps hyps) (\<lambda>all_hyps.
     bind (sort_hyps all_hyps) (\<lambda>sorted_hyps.
       collect_hyps F V steps sorted_hyps [] results))"

definition loop_cond :: "flags \<Rightarrow> nat \<Rightarrow> hypothesis list \<Rightarrow> bool" where
  "loop_cond F steps results =
     (int steps < max_dec_steps F \<and> int (length results) < beam_size F)"

function search_loop ::
  "flags \<Rightarrow> vocab \<Rightarrow> collaborators \<Rightarrow> nat \<Rightarrow> hypothesis list \<Rightarrow> hypothesis list \<Rightarrow>
     error + (nat \<times> hypothesis list \<times> hypothesis list)" where
  "search_loop F V C steps hyps results =
     (if loop_cond F steps results then
        (case decode_step F V C steps hyps results of
           Inl e \<Rightarrow> Inl e
         | Inr (hyps', results') \<Rightarrow> search_loop F V C (steps + 1) hyps' results')
      else Inr (steps, hyps, results))"
  by pat_completeness auto
termination
  by (relation "measure (\<lambda>(F, V, C, steps, hyps, results). nat (max_dec_steps F - int steps))")
     (auto simp: loop_cond_def)

declare search_loop.simps [simp del]

text \<open>Lines 201 to 202: the pool the answer is chosen from.\<close>

definition final_pool :: "hypothesis list \<Rightarrow> hypothesis list \<Rightarrow> hypothesis list" where
  "final_pool hyps results = (if length results = 0 then hyps else results)"

definition run_beam_search :: "flags \<Rightarrow> vocab \<Rightarrow> collaborators \<Rightarrow> error + hypothesis" where
  "run_beam_search F V C =
     bind (search_loop F V C 0 (init_hyps F V C) []) (\<lambda>(steps, hyps, results).
     bind (sort_hyps (final_pool hyps results)) (\<lambda>hyps_sorted.
       subscript hyps_sorted 0))"

text \<open>
  The states of the while loop: \<open>iteration F V C n (steps, hyps, results)\<close> holds when
  the loop variables have these values after \<open>n\<close> runs of the loop body.
\<close>

inductive iteration ::
  "flags \<Rightarrow> vocab \<Rightarrow> collaborators \<Rightarrow> nat \<Rightarrow> nat \<times> hypothesis list \<times> hypothesis list \<Rightarrow> bool"
  for F V C where
  start: "iteration F V C 0 (0, init_hyps F V C, [])"
| again: "iteration F V C n (steps, hyps, results) \<Longrightarrow>
          loop_cond F steps results \<Longrightarrow>
          decode_step F V C steps hyps results = Inr (hyps', results') \<Longrightarrow>
          iteration F V C (Suc n) (steps + 1, hyps', results')"


subsection \<open>The contract of the collaborators\<close>

text \<open>
  Modelled from the spec: the sequence model and the value estimator are not part of
  the search. Section 6 of the specification gives the shape of their answer: for a
  batch of \<open>beam\<close> hypotheses, one state, attention distribution, generation
  probability and coverage vector per hypothesis (and one decoder output and encoder
  mask where they are fed back), and \<open>2 * beam_size\<close> top candidates per hypothesis.
  Beyond that section, the ids of one hypothesis's top candidates are taken to be
  different vocabulary entries, as a top-k selection yields them.
\<close>

definition well_formed_output :: "flags \<Rightarrow> collaborators \<Rightarrow> dec_in \<Rightarrow> bool" where
  "well_formed_output F C inp =
     (let out = decode_onestep C inp;
          ids = fst (topk F C out);
          lps = snd (topk F C out);
          b = length (latest_tokens inp);
          w = nat (beam_size F * 2)
      in b \<le> length (new_states out) \<and> b \<le> length (step_attn_dists out) \<and>
         b \<le> length (step_p_gens out) \<and> b \<le> length (new_coverage out) \<and>
         (intradecoder F \<longrightarrow> b \<le> length (step_decoder_output out)) \<and>
         (use_temporal_attention F \<longrightarrow> b \<le> length (encoder_e out)) \<and>
         b \<le> length ids \<and> b \<le> length lps \<and>
         (\<forall>i \<in> {0..<b}. w \<le> length (ids ! i) \<and> w \<le> length (lps ! i) \<and>
                        distinct (take w (ids ! i))))"

definition well_formed_model :: "flags \<Rightarrow> collaborators \<Rightarrow> bool" where
  "well_formed_model F C =
     (\<forall>inp. int (length (latest_tokens inp)) \<le> beam_size F \<longrightarrow> well_formed_output F C inp)"

subsection \<open>The arithmetic of the value-estimator path\<close>








subsection \<open>The trigram guard in the words of the specification\<close>

text \<open>
  Some contiguous 3-token window of the sequence occurs more than once: two different
  start positions carry the same window.
\<close>

definition repeated_window3 :: "int list \<Rightarrow> bool" where
  "repeated_window3 xs =
     (\<exists>j \<in> {0..<length xs - 2}. \<exists>i \<in> {0..<j}. take 3 (drop i xs) = take 3 (drop j xs))"

subsection \<open>The average log probability in the words of the specification\<close>



subsection \<open>Deterministic stubs\<close>

text \<open>
  A vocabulary with start token 2, stop token 3 and unknown token 0, and a model that
  answers every call with the same two rows: token 5 first and the stop token second
  for the first hypothesis, the stop token first for the second one.
\<close>

definition V0 :: vocab where
  "V0 = \<lparr> start_id = 2, stop_id = 3, unk_id = 0, vocab_size = 10 \<rparr>"

definition stub_out :: dec_out where
  "stub_out =
     \<lparr> topk_ids = [[5, 3, 6, 7], [3, 5, 6, 7]],
       topk_log_probs = [[Fin (-1), Fin (-2), Fin (-3), Fin (-4)],
                         [Fin (-1), Fin (-2), Fin (-3), Fin (-4)]],
       new_states = [([], []), ([], [])],
       step_attn_dists = [[], []],
       final_dists = [[], []],
       step_p_gens = [1, 1],
       new_coverage = [[], []],
       step_decoder_output = [[], []],
       encoder_e = [[], []] \<rparr>"

definition C0 :: collaborators where
  "C0 = \<lparr> decode_onestep = (\<lambda>inp. stub_out),
          dqn_topk = (\<lambda>d f. ([], [])),
          dec_in_state = ([], []),
          attn_length = 0 \<rparr>"

definition flags0 :: "int \<Rightarrow> int \<Rightarrow> int \<Rightarrow> flags" where
  "flags0 w mx mn =
     \<lparr> beam_size = w, max_dec_steps = mx, min_dec_steps = mn, avoid_trigrams = True,
       intradecoder = False, use_temporal_attention = False, ac_training = False,
       dec_hidden_dim = 0 \<rparr>"

definition hyp0 :: "int list \<Rightarrow> logp list \<Rightarrow> hypothesis" where
  "hyp0 toks lps =
     \<lparr> tokens = toks, log_probs = lps, state = ([], []), decoder_output = [],
       encoder_mask = [], attn_dists = [], p_gens = [], coverage = [] \<rparr>"




section \<open>Properties\<close>

subsection \<open>Results, subscripts and sorting\<close>

lemma bind_Inr [simp]: "bind (Inr x) f = f x"
  by (simp add: bind_def)

lemma bind_Inl [simp]: "bind (Inl e) f = Inl e"
  by (simp add: bind_def)

lemma bind_eq_Inr: "(bind r f = Inr y) = (\<exists>x. r = Inr x \<and> f x = Inr y)"
  by (cases r) simp_all

lemma subscript_eq_Inr: "(subscript xs i = Inr x) = (i < length xs \<and> x = xs ! i)"
  by (auto simp: subscript_def)

lemma comprehension_eq_Inr:
  "(comprehension f xs = Inr ys) = list_all2 (\<lambda>x y. f x = Inr y) xs ys"
proof (induction xs arbitrary: ys)
  case Nil
  show ?case by auto
next
  case (Cons x xs)
  show ?case
  proof (cases "f x")
    case (Inl e)
    then show ?thesis by (auto simp: list_all2_Cons1)
  next
    case fx: (Inr y)
    show ?thesis
    proof (cases "comprehension f xs")
      case (Inl e)
      with fx Cons.IH show ?thesis
        by (auto simp: list_all2_Cons1)
    next
      case (Inr zs)
      with fx Cons.IH [of zs] Cons.IH show ?thesis
        by (auto simp: list_all2_Cons1)
    qed
  qed
qed

lemma comprehension_succeeds:
  "(\<forall>x \<in> set xs. \<exists>y. f x = Inr y) \<Longrightarrow> \<exists>ys. comprehension f xs = Inr ys"
  by (induction xs) (auto split: sum.splits)

lemma latest_token_eq_Inr: "(latest_token h = Inr t) = (tokens h \<noteq> [] \<and> t = last (tokens h))"
  by (auto simp: latest_token_def)

lemma avg_log_prob_fails: "(avg_log_prob h = Inl e) = (tokens h = [] \<and> e = ZeroDivisionError)"
proof (cases "tokens h")
  case Nil
  then show ?thesis by (auto simp: avg_log_prob_def)
next
  case (Cons t ts)
  then show ?thesis
    by (cases "log_prob h") (simp_all add: avg_log_prob_def)
qed

lemma avg_log_prob_succeeds: "tokens h \<noteq> [] \<Longrightarrow> \<exists>a. avg_log_prob h = Inr a"
  by (cases "avg_log_prob h") (simp_all add: avg_log_prob_fails)

lemma sort_hyps_eq_Inr:
  assumes "sort_hyps hs = Inr srt"
  shows "\<exists>keys. list_all2 (\<lambda>h k. avg_log_prob h = Inr k) hs keys \<and>
           srt = map snd (rev (sort_key fst (rev (zip keys hs))))"
  using assms by (auto simp: sort_hyps_def comprehension_eq_Inr split: sum.splits)

lemma sort_hyps_set:
  assumes "sort_hyps hs = Inr srt"
  shows "set srt = set hs"
proof -
  from sort_hyps_eq_Inr [OF assms] obtain keys
    where k: "list_all2 (\<lambda>h k. avg_log_prob h = Inr k) hs keys"
      and s: "srt = map snd (rev (sort_key fst (rev (zip keys hs))))"
    by blast
  from k have len: "length keys = length hs"
    by (simp add: list_all2_lengthD)
  have "set srt = snd ` set (zip keys hs)"
    by (simp add: s)
  also have "\<dots> = set (map snd (zip keys hs))"
    by simp
  also have "\<dots> = set hs"
    using len by (simp only: map_snd_zip)
  finally show ?thesis .
qed

lemma sort_hyps_length:
  assumes "sort_hyps hs = Inr srt"
  shows "length srt = length hs"
proof -
  from sort_hyps_eq_Inr [OF assms] obtain keys
    where k: "list_all2 (\<lambda>h k. avg_log_prob h = Inr k) hs keys"
      and s: "srt = map snd (rev (sort_key fst (rev (zip keys hs))))"
    by blast
  from k have "length keys = length hs"
    by (simp add: list_all2_lengthD)
  then show ?thesis
    by (simp add: s)
qed


lemma sort_hyps_succeeds:
  assumes "\<forall>h \<in> set hs. tokens h \<noteq> []"
  shows "\<exists>srt. sort_hyps hs = Inr srt"
proof -
  from assms have "\<forall>h \<in> set hs. \<exists>a. avg_log_prob h = Inr a"
    by (simp add: avg_log_prob_succeeds)
  then obtain keys where "comprehension avg_log_prob hs = Inr keys"
    using comprehension_succeeds by blast
  then show ?thesis
    by (simp add: sort_hyps_def)
qed



lemma inr_cases: "map_sum f g r = Inr y \<Longrightarrow> \<exists>x. r = Inr x"
  by (cases r) auto

subsection \<open>The scan of the sorted candidates\<close>

lemma route_eq_Inr:
  "(route F V s h hyps results = Inr (hyps', results')) =
     (tokens h \<noteq> [] \<and>
      (hyps', results') =
        (if latest_token h = Inr (stop_id V)
         then (hyps, if int s \<ge> min_dec_steps F then results @ [h] else results)
         else (hyps @ [h], results)))"
  by (auto simp: route_def latest_token_def)

lemma route_cases:
  assumes "route F V s h hyps results = Inr (hyps', results')"
  shows "tokens h \<noteq> [] \<and>
         (if latest_token h = Inr (stop_id V)
          then hyps' = hyps \<and> results' = (if int s \<ge> min_dec_steps F then results @ [h] else results)
          else hyps' = hyps @ [h] \<and> results' = results)"
  using assms by (auto simp: route_eq_Inr split: if_splits)

lemma route_succeeds:
  "tokens h \<noteq> [] \<Longrightarrow> \<exists>hyps' results'. route F V s h hyps results = Inr (hyps', results')"
  by (simp add: route_def latest_token_def)

lemma collect_hyps_visited:
  assumes "collect_hyps F V s cands hyps results = Inr (hyps', results')"
  shows "hyps' = hyps @ filter (\<lambda>h. latest_token h \<noteq> Inr (stop_id V)) (visited F V s cands hyps results) \<and>
         results' = results @
           (if int s \<ge> min_dec_steps F
            then filter (\<lambda>h. latest_token h = Inr (stop_id V)) (visited F V s cands hyps results)
            else [])"
  using assms
proof (induction cands arbitrary: hyps results)
  case Nil
  then show ?case by simp
next
  case (Cons h rest)
  from Cons.prems obtain h1 r1 where r: "route F V s h hyps results = Inr (h1, r1)"
    by (auto split: sum.splits)
  show ?case
  proof (cases "full F h1 r1")
    case True
    with r Cons.prems have "hyps' = h1" "results' = r1" "visited F V s (h # rest) hyps results = [h]"
      by simp_all
    with route_cases [OF r] show ?thesis
      by (simp split: if_splits)
  next
    case False
    with r Cons.prems have "collect_hyps F V s rest h1 r1 = Inr (hyps', results')"
      and v: "visited F V s (h # rest) hyps results = h # visited F V s rest h1 r1"
      by simp_all
    from Cons.IH [OF this(1)] route_cases [OF r] show ?thesis
      unfolding v by (simp split: if_splits)
  qed
qed

lemma visited_prefix: "\<exists>dropped. cands = visited F V s cands hyps results @ dropped"
  by (induction cands arbitrary: hyps results) (auto split: sum.splits)


lemma collect_hyps_cut_full:
  assumes "collect_hyps F V s cands hyps results = Inr (hyps', results')"
      and "visited F V s cands hyps results \<noteq> cands"
  shows "full F hyps' results'"
  using assms
  by (induction cands arbitrary: hyps results) (auto split: sum.splits if_splits)


lemma collect_hyps_bounds:
  assumes "collect_hyps F V s cands hyps results = Inr (hyps', results')"
      and "int (length hyps) < beam_size F" and "int (length results) < beam_size F"
  shows "int (length hyps') \<le> beam_size F \<and> int (length results') \<le> beam_size F"
  using assms
proof (induction cands arbitrary: hyps results)
  case Nil
  then show ?case by simp
next
  case (Cons c rest)
  from Cons.prems(1) obtain h1 r1 where r: "route F V s c hyps results = Inr (h1, r1)"
    by (auto split: sum.splits)
  from route_cases [OF r] Cons.prems(2,3)
  have le: "int (length h1) \<le> beam_size F" "int (length r1) \<le> beam_size F"
    by (auto split: if_splits)
  show ?case
  proof (cases "full F h1 r1")
    case True
    with r Cons.prems(1) le show ?thesis by simp
  next
    case False
    with le have "int (length h1) < beam_size F" "int (length r1) < beam_size F"
      by (simp_all add: full_def)
    moreover from r False Cons.prems(1) have "collect_hyps F V s rest h1 r1 = Inr (hyps', results')"
      by simp
    ultimately show ?thesis
      by (rule Cons.IH [rotated])
  qed
qed

lemma collect_hyps_succeeds:
  assumes "\<forall>h \<in> set cands. tokens h \<noteq> []"
  shows "\<exists>hyps' results'. collect_hyps F V s cands hyps results = Inr (hyps', results')"
  using assms
proof (induction cands arbitrary: hyps results)
  case Nil
  show ?case by simp
next
  case (Cons c rest)
  then obtain h1 r1 where "route F V s c hyps results = Inr (h1, r1)"
    using route_succeeds [of c F V s hyps results] by auto
  moreover from Cons obtain h2 r2 where "collect_hyps F V s rest h1 r1 = Inr (h2, r2)"
    by fastforce
  ultimately show ?case
    by simp
qed

subsection \<open>The candidates of a step\<close>

lemma subscript2_eq_Inr:
  "(subscript2 m i j = Inr x) = (i < length m \<and> j < length (m ! i) \<and> x = m ! i ! j)"
  by (auto simp: subscript2_def bind_eq_Inr subscript_eq_Inr)

lemma extend_child_of:
  assumes "(d = None) = (\<not> intradecoder F)" and "(m = None) = (\<not> use_temporal_attention F)"
  shows "child_of F h (extend F h token lp st d m a p cov)"
  using assms by (cases d; cases m) (simp_all add: child_of_def extend_def)

lemma expand_hyp_Inr:
  assumes "expand_hyp F hyps out ids lps i = Inr row"
  shows "i < length hyps \<and> length row = nat (beam_size F * 2) \<and>
         (\<forall>j < length row. child_of F (hyps ! i) (row ! j) \<and>
                            last (tokens (row ! j)) = ids ! i ! j)"
proof -
  from assms obtain new_state attn_dist p_gen new_coverage_i d m where
    i: "i < length hyps"
    and d: "(if intradecoder F then map_sum id Some (subscript (step_decoder_output out) i)
             else Inr None) = Inr d"
    and m: "(if use_temporal_attention F then map_sum id Some (subscript (encoder_e out) i)
             else Inr None) = Inr m"
    and row: "comprehension
         (\<lambda>j. bind (subscript2 ids i j) (\<lambda>token.
              bind (subscript2 lps i j) (\<lambda>lp.
                Inr (extend F (hyps ! i) token lp new_state d m attn_dist p_gen new_coverage_i))))
         [0..<nat (beam_size F * 2)] = Inr row"
    unfolding expand_hyp_def bind_eq_Inr subscript_eq_Inr by blast
  from d have dn: "(d = None) = (\<not> intradecoder F)"
    by (cases "subscript (step_decoder_output out) i") (auto split: if_splits)
  from m have mn: "(m = None) = (\<not> use_temporal_attention F)"
    by (cases "subscript (encoder_e out) i") (auto split: if_splits)
  from row have la: "list_all2
      (\<lambda>j c. bind (subscript2 ids i j) (\<lambda>token.
              bind (subscript2 lps i j) (\<lambda>lp.
                Inr (extend F (hyps ! i) token lp new_state d m attn_dist p_gen new_coverage_i))) = Inr c)
      [0..<nat (beam_size F * 2)] row"
    by (simp only: comprehension_eq_Inr)
  then have len: "length row = nat (beam_size F * 2)"
    by (auto dest: list_all2_lengthD)
  have "child_of F (hyps ! i) (row ! j) \<and> last (tokens (row ! j)) = ids ! i ! j"
    if "j < length row" for j
  proof -
    from that len have "j < length [0..<nat (beam_size F * 2)]"
      by simp
    from list_all2_nthD [OF la this] that len
    obtain lp where "extend F (hyps ! i) (ids ! i ! j) lp new_state d m attn_dist p_gen new_coverage_i = row ! j"
      by (auto simp: bind_eq_Inr subscript2_eq_Inr)
    then have "row ! j = extend F (hyps ! i) (ids ! i ! j) lp new_state d m attn_dist p_gen new_coverage_i"
      by simp
    with dn mn show ?thesis
      by (simp add: extend_child_of) (simp add: extend_def)
  qed
  with i len show ?thesis
    by blast
qed

lemma length_concat_const:
  "(\<forall>r \<in> set rows. length r = w) \<Longrightarrow> length (concat rows) = length rows * w"
  by (induction rows) simp_all

lemma model_inputs_Inr:
  assumes "model_inputs F V hyps = Inr inp"
  shows "hyps \<noteq> [] \<and> (\<forall>h \<in> set hyps. tokens h \<noteq> []) \<and>
         latest_tokens inp =
           map (\<lambda>h. if 0 \<le> last (tokens h) \<and> last (tokens h) < vocab_size V
                     then last (tokens h) else unk_id V) hyps \<and>
         dec_init_states inp = map state hyps \<and>
         prev_coverage inp = map coverage hyps"
proof -
  from assms obtain lts dos ees where
    lts: "comprehension latest_token hyps = Inr lts"
    and sw: "swapaxes01 (map decoder_output hyps) = Inr dos"
    and inp: "inp = \<lparr> latest_tokens =
               map (\<lambda>t. if 0 \<le> t \<and> t < vocab_size V then t else unk_id V) lts,
             dec_init_states = map state hyps,
             prev_coverage = map coverage hyps,
             prev_decoder_outputs = (if intradecoder F then dos else []),
             prev_encoder_es = (if use_temporal_attention F then ees else []) \<rparr>"
    unfolding model_inputs_def bind_eq_Inr by auto
  from sw have ne: "hyps \<noteq> []"
    by (auto simp: swapaxes01_def split: if_splits)
  from lts have la: "list_all2 (\<lambda>h t. latest_token h = Inr t) hyps lts"
    by (simp only: comprehension_eq_Inr)
  then have len: "length lts = length hyps"
    by (auto dest: list_all2_lengthD)
  have nth: "tokens (hyps ! i) \<noteq> [] \<and> lts ! i = last (tokens (hyps ! i))" if "i < length hyps" for i
    using list_all2_nthD [OF la that] by (simp add: latest_token_eq_Inr)
  then have tk: "\<forall>h \<in> set hyps. tokens h \<noteq> []"
    by (auto simp: in_set_conv_nth)
  have "lts = map (\<lambda>h. last (tokens h)) hyps"
    using len nth by (auto intro: nth_equalityI)
  with inp ne tk show ?thesis
    by (simp add: comp_def)
qed

lemma candidates_rows:
  assumes "candidates F V C s hyps = Inr all_hyps"
  shows "\<exists>inp rows. model_inputs F V hyps = Inr inp \<and>
           comprehension (expand_hyp F hyps (decode_onestep C inp)
                  (fst (topk F C (decode_onestep C inp))) (snd (topk F C (decode_onestep C inp))))
                 [0..<num_orig_hyps s hyps] = Inr rows \<and>
           all_hyps = concat rows"
  using assms unfolding candidates_def Let_def case_prod_beta
  by (auto simp: bind_eq_Inr)

lemma candidates_Inr:
  assumes "candidates F V C s hyps = Inr all_hyps"
  shows "\<exists>rows. all_hyps = concat rows \<and> length rows = num_orig_hyps s hyps \<and>
           num_orig_hyps s hyps \<le> length hyps \<and>
           (\<forall>i < length rows. length (rows ! i) = nat (beam_size F * 2) \<and>
              (\<forall>c \<in> set (rows ! i). child_of F (hyps ! i) c))"
proof -
  obtain inp rows where
    inp: "model_inputs F V hyps = Inr inp"
    and rows: "comprehension (expand_hyp F hyps (decode_onestep C inp)
                  (fst (topk F C (decode_onestep C inp))) (snd (topk F C (decode_onestep C inp))))
                 [0..<num_orig_hyps s hyps] = Inr rows"
    and all: "all_hyps = concat rows"
    using candidates_rows [OF assms] by blast
  let ?out = "decode_onestep C inp"
  let ?ids = "fst (topk F C ?out)" and ?lps = "snd (topk F C ?out)"
  from rows have la: "list_all2 (\<lambda>i row. expand_hyp F hyps ?out ?ids ?lps i = Inr row)
                        [0..<num_orig_hyps s hyps] rows"
    by (simp only: comprehension_eq_Inr)
  then have len: "length rows = num_orig_hyps s hyps"
    by (auto dest: list_all2_lengthD)
  have row: "expand_hyp F hyps ?out ?ids ?lps i = Inr (rows ! i)" if "i < length rows" for i
  proof -
    from that len have "i < length [0..<num_orig_hyps s hyps]"
      by simp
    from list_all2_nthD [OF la this] that len show ?thesis
      by simp
  qed
  from model_inputs_Inr [OF inp] have "hyps \<noteq> []"
    by simp
  then have le: "num_orig_hyps s hyps \<le> length hyps"
    by (cases hyps) (simp_all add: num_orig_hyps_def)
  have "length (rows ! i) = nat (beam_size F * 2) \<and> (\<forall>c \<in> set (rows ! i). child_of F (hyps ! i) c)"
    if "i < length rows" for i
    using expand_hyp_Inr [OF row [OF that]] by (auto simp: in_set_conv_nth)
  with all len le show ?thesis
    by blast
qed

subsection \<open>Invariants of the search loop\<close>

lemma decode_step_Inr:
  assumes "decode_step F V C s hyps results = Inr (hyps', results')"
  shows "\<exists>all_hyps srt. candidates F V C s hyps = Inr all_hyps \<and> sort_hyps all_hyps = Inr srt \<and>
           collect_hyps F V s srt [] results = Inr (hyps', results')"
  using assms unfolding decode_step_def bind_eq_Inr by blast

lemma candidates_children:
  assumes "candidates F V C s hyps = Inr all_hyps" and "c \<in> set all_hyps"
  shows "\<exists>h \<in> set hyps. child_of F h c"
proof -
  from candidates_Inr [OF assms(1)] obtain rows where
    all: "all_hyps = concat rows" and len: "length rows = num_orig_hyps s hyps"
    and le: "num_orig_hyps s hyps \<le> length hyps"
    and row: "\<And>i. i < length rows \<Longrightarrow> length (rows ! i) = nat (beam_size F * 2) \<and>
                 (\<forall>c \<in> set (rows ! i). child_of F (hyps ! i) c)"
    by blast
  from assms(2) all obtain r where "r \<in> set rows" "c \<in> set r"
    by auto
  then obtain i where i: "i < length rows" "c \<in> set (rows ! i)"
    by (metis in_set_conv_nth)
  with row have "child_of F (hyps ! i) c"
    by blast
  moreover from i len le have "hyps ! i \<in> set hyps"
    by simp
  ultimately show ?thesis
    by blast
qed

lemma visited_subset: "set (visited F V s cands hyps results) \<subseteq> set cands"
proof -
  obtain dropped where "cands = visited F V s cands hyps results @ dropped"
    using visited_prefix by blast
  then have "set cands = set (visited F V s cands hyps results) \<union> set dropped"
    by (metis set_append)
  then show ?thesis
    by blast
qed

lemma decode_step_facts:
  assumes "decode_step F V C s hyps results = Inr (hyps', results')"
      and "int (length results) < beam_size F"
  shows "\<forall>c \<in> set hyps'. (\<exists>h \<in> set hyps. child_of F h c) \<and> latest_token c \<noteq> Inr (stop_id V)"
    and "\<forall>c \<in> set results'. c \<in> set results \<or>
            ((\<exists>h \<in> set hyps. child_of F h c) \<and> latest_token c = Inr (stop_id V) \<and>
             min_dec_steps F \<le> int s)"
    and "int (length hyps') \<le> beam_size F" and "int (length results') \<le> beam_size F"
proof -
  from decode_step_Inr [OF assms(1)] obtain all_hyps srt where
    c: "candidates F V C s hyps = Inr all_hyps" and srt: "sort_hyps all_hyps = Inr srt"
    and col: "collect_hyps F V s srt [] results = Inr (hyps', results')"
    by blast
  let ?vis = "visited F V s srt [] results"
  have vis: "set ?vis \<subseteq> set all_hyps"
    using visited_subset [of F V s srt "[]" results] sort_hyps_set [OF srt] by simp
  from collect_hyps_visited [OF col] have
    h: "hyps' = filter (\<lambda>h. latest_token h \<noteq> Inr (stop_id V)) ?vis"
    and r: "results' = results @
           (if int s \<ge> min_dec_steps F
            then filter (\<lambda>h. latest_token h = Inr (stop_id V)) ?vis else [])"
    by simp_all
  show "\<forall>c \<in> set hyps'. (\<exists>h \<in> set hyps. child_of F h c) \<and> latest_token c \<noteq> Inr (stop_id V)"
    using vis candidates_children [OF c] unfolding h by auto
  show "\<forall>c \<in> set results'. c \<in> set results \<or>
            ((\<exists>h \<in> set hyps. child_of F h c) \<and> latest_token c = Inr (stop_id V) \<and>
             min_dec_steps F \<le> int s)"
    using vis candidates_children [OF c] unfolding r by (auto split: if_splits)
  from assms(2) have "int (length ([]::hypothesis list)) < beam_size F"
    by simp
  from collect_hyps_bounds [OF col this assms(2)]
  show "int (length hyps') \<le> beam_size F" and "int (length results') \<le> beam_size F"
    by simp_all
qed

lemma child_of_length: "child_of F h c \<Longrightarrow> length (tokens c) = Suc (length (tokens h))"
proof -
  assume a: "child_of F h c"
  then have "tokens c \<noteq> []"
    by (simp add: child_of_def)
  then have "tokens c = butlast (tokens c) @ [last (tokens c)]"
    by simp
  moreover from a have "butlast (tokens c) = tokens h"
    by (simp add: child_of_def)
  ultimately have "tokens c = tokens h @ [last (tokens c)]"
    by simp
  then show ?thesis
    by (metis length_append_singleton)
qed

lemma iteration_steps:
  "iteration F V C n st \<Longrightarrow> fst st = n"
  by (induction rule: iteration.induct) simp_all

lemma iteration_lengths:
  assumes "iteration F V C n st"
  shows "(\<forall>h \<in> set (fst (snd st)). length (tokens h) = Suc (fst st)) \<and>
         (\<forall>h \<in> set (snd (snd st)). 2 \<le> length (tokens h) \<and> length (tokens h) \<le> Suc (fst st))"
  using assms
proof (induction rule: iteration.induct)
  case start
  show ?case by (simp add: init_hyps_def)
next
  case (again n steps hyps results hyps' results')
  from again.hyps(2) have lt: "int (length results) < beam_size F"
    by (simp add: loop_cond_def)
  note f = decode_step_facts [OF again.hyps(3) lt]
  have "length (tokens c) = Suc (Suc steps)" if "c \<in> set hyps'" for c
    using f(1) that again.IH by (auto dest!: child_of_length)
  moreover have "2 \<le> length (tokens c) \<and> length (tokens c) \<le> Suc (Suc steps)" if "c \<in> set results'" for c
  proof -
    from f(2) that consider "c \<in> set results" | h where "h \<in> set hyps" "child_of F h c"
      by blast
    then show ?thesis
    proof cases
      case 1
      with again.IH show ?thesis by auto
    next
      case 2
      with again.IH child_of_length [OF 2(2)] show ?thesis by auto
    qed
  qed
  ultimately show ?case
    by simp
qed

lemma iteration_stop:
  assumes "iteration F V C n st"
  shows "(0 < n \<longrightarrow> (\<forall>h \<in> set (fst (snd st)). latest_token h \<noteq> Inr (stop_id V))) \<and>
         (\<forall>h \<in> set (snd (snd st)). latest_token h = Inr (stop_id V)) \<and>
         (max_dec_steps F < min_dec_steps F \<longrightarrow> snd (snd st) = [])"
  using assms
proof (induction rule: iteration.induct)
  case start
  show ?case by simp
next
  case (again n steps hyps results hyps' results')
  from again.hyps(2) have lt: "int (length results) < beam_size F" and mx: "int steps < max_dec_steps F"
    by (simp_all add: loop_cond_def)
  note f = decode_step_facts [OF again.hyps(3) lt]
  have "results' = []" if "max_dec_steps F < min_dec_steps F"
  proof (rule ccontr)
    assume "results' \<noteq> []"
    then obtain c where c: "c \<in> set results'"
      by (cases results') auto
    from that again.IH have "results = []"
      by simp
    with f(2) c have "min_dec_steps F \<le> int steps"
      by auto
    with mx that show False
      by simp
  qed
  with f(1,2) again.IH show ?case
    by auto
qed

lemma iteration_sizes:
  assumes "iteration F V C n st"
  shows "length (fst (snd st)) \<le> nat (beam_size F) \<and> length (snd (snd st)) \<le> nat (beam_size F) \<and>
         (n = 0 \<longrightarrow> length (fst (snd st)) = nat (beam_size F))"
  using assms
proof (induction rule: iteration.induct)
  case start
  show ?case by (simp add: init_hyps_def)
next
  case (again n steps hyps results hyps' results')
  from again.hyps(2) have lt: "int (length results) < beam_size F"
    by (simp add: loop_cond_def)
  from decode_step_facts(3,4) [OF again.hyps(3) lt] show ?case
    by (simp add: le_nat_iff)
qed

lemma iteration_bound:
  assumes "iteration F V C n st" and "0 \<le> max_dec_steps F"
  shows "int (fst st) \<le> max_dec_steps F"
  using assms
  by (induction rule: iteration.induct) (simp_all add: loop_cond_def)

lemma search_loop_iteration:
  assumes "search_loop F V C s hyps results = Inr (s', hyps', results')"
      and "iteration F V C n (s, hyps, results)"
  shows "\<exists>n'. iteration F V C n' (s', hyps', results') \<and> \<not> loop_cond F s' results'"
  using assms
proof (induction F V C s hyps results arbitrary: n rule: search_loop.induct)
  case (1 F V C steps hyps results)
  show ?case
  proof (cases "loop_cond F steps results")
    case False
    with "1.prems" show ?thesis
      by (auto simp: search_loop.simps [of F V C steps hyps results])
  next
    case True
    with "1.prems"(1) obtain h1 r1 where
      d: "decode_step F V C steps hyps results = Inr (h1, r1)"
      and l: "search_loop F V C (steps + 1) h1 r1 = Inr (s', hyps', results')"
      by (auto simp: search_loop.simps [of F V C steps hyps results] split: sum.splits)
    from "1.prems"(2) True d have "iteration F V C (Suc n) (steps + 1, h1, r1)"
      by (rule iteration.again)
    with "1.IH" [OF True d refl l] show ?thesis
      by blast
  qed
qed

lemma search_loop_final:
  assumes "search_loop F V C 0 (init_hyps F V C) [] = Inr (s, hyps, results)"
  shows "iteration F V C s (s, hyps, results) \<and> \<not> loop_cond F s results"
proof -
  from search_loop_iteration [OF assms iteration.start] obtain n where
    n: "iteration F V C n (s, hyps, results)" and c: "\<not> loop_cond F s results"
    by blast
  from iteration_steps [OF n] have "s = n"
    by simp
  with n c show ?thesis
    by simp
qed

lemma run_beam_search_Inr:
  assumes "run_beam_search F V C = Inr best"
  shows "\<exists>steps hyps results srt.
           search_loop F V C 0 (init_hyps F V C) [] = Inr (steps, hyps, results) \<and>
           sort_hyps (final_pool hyps results) = Inr srt \<and> srt \<noteq> [] \<and> best = srt ! 0"
proof -
  from assms obtain st srt where
    l: "search_loop F V C 0 (init_hyps F V C) [] = Inr st"
    and s: "(case st of (steps, hyps, results) \<Rightarrow>
              bind (sort_hyps (final_pool hyps results)) (\<lambda>hyps_sorted. subscript hyps_sorted 0)) = Inr best"
    unfolding run_beam_search_def bind_eq_Inr by blast
  obtain steps hyps results where st: "st = (steps, hyps, results)"
    by (cases st) auto
  from s st obtain srt where "sort_hyps (final_pool hyps results) = Inr srt" "subscript srt 0 = Inr best"
    by (auto simp: bind_eq_Inr)
  with l st show ?thesis
    by (auto simp: subscript_eq_Inr)
qed

lemma not_isl_Inr: "\<not> isl r \<Longrightarrow> \<exists>x. r = Inr x"
  by (cases r) simp_all

lemma stub_first_step:
  "\<exists>hyps results. decode_step (flags0 2 5 0) V0 C0 0 (init_hyps (flags0 2 5 0) V0 C0) [] = Inr (hyps, results) \<and>
      map tokens hyps = [[2, 5], [2, 6]] \<and> map tokens results = [[2, 3]] \<and>
      \<not> isl (model_inputs (flags0 2 5 0) V0 hyps)"
proof -
  let ?d = "decode_step (flags0 2 5 0) V0 C0 0 (init_hyps (flags0 2 5 0) V0 C0) []"
  have "map_sum id (\<lambda>(h, r). (map tokens h, map tokens r,
                               isl (model_inputs (flags0 2 5 0) V0 h))) ?d =
        Inr ([[2, 5], [2, 6]], [[2, 3]], False)"
    by code_simp
  then show ?thesis
    by (cases ?d) auto
qed

lemma stub_iteration:
  "\<exists>hyps results. iteration (flags0 2 5 0) V0 C0 1 (1, hyps, results) \<and>
      map tokens hyps = [[2, 5], [2, 6]] \<and> map tokens results = [[2, 3]] \<and>
      \<not> isl (model_inputs (flags0 2 5 0) V0 hyps)"
proof -
  from stub_first_step obtain hyps results where
    d: "decode_step (flags0 2 5 0) V0 C0 0 (init_hyps (flags0 2 5 0) V0 C0) [] = Inr (hyps, results)"
    and t: "map tokens hyps = [[2, 5], [2, 6]]" "map tokens results = [[2, 3]]"
           "\<not> isl (model_inputs (flags0 2 5 0) V0 hyps)"
    by (elim exE conjE)
  have "loop_cond (flags0 2 5 0) 0 []"
    by (simp add: loop_cond_def flags0_def)
  from iteration.again [OF iteration.start this d]
  have "iteration (flags0 2 5 0) V0 C0 1 (1, hyps, results)"
    by simp
  with t show ?thesis
    by (intro exI conjI)
qed

lemma avg_log_prob_value:
  assumes "tokens h \<noteq> []"
  shows "avg_log_prob h =
           (case log_prob h of NegInf \<Rightarrow> Inr NegInf
            | Fin x \<Rightarrow> Inr (Fin (x / real (length (tokens h)))))"
proof -
  from assms obtain k where "length (tokens h) = Suc k"
    by (cases "tokens h") auto
  then show ?thesis
    by (cases "log_prob h") (simp_all add: avg_log_prob_def)
qed

lemma search_loop_no_beam:
  assumes "beam_size F \<le> 0"
  shows "search_loop F V C 0 (init_hyps F V C) [] = Inr (0, [], [])"
proof -
  from assms have "\<not> loop_cond F 0 []" and "init_hyps F V C = []"
    by (simp_all add: loop_cond_def init_hyps_def)
  then show ?thesis
    by (simp add: search_loop.simps)
qed

subsection \<open>A well-formed model never makes the search fail\<close>

lemma swapaxes01_succeeds:
  assumes "rows \<noteq> []" and "\<forall>r \<in> set rows. length r = k"
  shows "\<exists>t. swapaxes01 rows = Inr t"
proof -
  from assms have "hd rows \<in> set rows"
    by simp
  with assms(2) have "length (hd rows) = k"
    by blast
  with assms show ?thesis
    by (simp add: swapaxes01_def)
qed

lemma model_inputs_succeeds:
  assumes "hyps \<noteq> []" and "\<forall>h \<in> set hyps. tokens h \<noteq> []"
      and "\<forall>h \<in> set hyps. length (decoder_output h) = k1"
      and "\<forall>h \<in> set hyps. length (encoder_mask h) = k2"
  shows "\<exists>inp. model_inputs F V hyps = Inr inp"
proof -
  from assms(2) have "\<forall>h \<in> set hyps. \<exists>t. latest_token h = Inr t"
    by (simp add: latest_token_def)
  then obtain lts where 1: "comprehension latest_token hyps = Inr lts"
    using comprehension_succeeds by blast
  from assms(1,3) obtain dos where 2: "swapaxes01 (map decoder_output hyps) = Inr dos"
    using swapaxes01_succeeds [of "map decoder_output hyps" k1] by auto
  from assms(1,4) obtain ees where 3: "swapaxes01 (map encoder_mask hyps) = Inr ees"
    using swapaxes01_succeeds [of "map encoder_mask hyps" k2] by auto
  from 1 2 3 show ?thesis
    by (simp add: model_inputs_def)
qed

lemma expand_hyp_succeeds:
  assumes "i < length hyps"
      and "i < length (new_states out)" and "i < length (step_attn_dists out)"
      and "i < length (step_p_gens out)" and "i < length (new_coverage out)"
      and "intradecoder F \<longrightarrow> i < length (step_decoder_output out)"
      and "use_temporal_attention F \<longrightarrow> i < length (encoder_e out)"
      and "i < length ids" and "i < length lps"
      and "nat (beam_size F * 2) \<le> length (ids ! i)"
      and "nat (beam_size F * 2) \<le> length (lps ! i)"
  shows "\<exists>row. expand_hyp F hyps out ids lps i = Inr row"
proof -
  have "\<exists>c. bind (subscript2 ids i j) (\<lambda>token.
              bind (subscript2 lps i j) (\<lambda>lp.
                Inr (extend F h token lp st d m a p cov))) = Inr c"
    if "j \<in> set [0..<nat (beam_size F * 2)]" for j h st d m a p cov
    using that assms(8-11) by (simp add: subscript2_def subscript_def)
  then have "\<exists>row. comprehension
         (\<lambda>j. bind (subscript2 ids i j) (\<lambda>token.
              bind (subscript2 lps i j) (\<lambda>lp.
                Inr (extend F h token lp st d m a p cov))))
         [0..<nat (beam_size F * 2)] = Inr row" for h st d m a p cov
    by (intro comprehension_succeeds ballI)
  with assms(1-7) show ?thesis
    by (simp add: expand_hyp_def subscript_def)
qed

lemma candidates_succeeds:
  assumes "model_inputs F V hyps = Inr inp" and "well_formed_output F C inp"
  shows "\<exists>all_hyps. candidates F V C s hyps = Inr all_hyps"
proof -
  let ?out = "decode_onestep C inp"
  let ?ids = "fst (topk F C ?out)" and ?lps = "snd (topk F C ?out)"
  from model_inputs_Inr [OF assms(1)] have ne: "hyps \<noteq> []"
    and b: "length (latest_tokens inp) = length hyps"
    by simp_all
  from ne have le: "num_orig_hyps s hyps \<le> length hyps"
    by (cases hyps) (simp_all add: num_orig_hyps_def)
  have "\<exists>row. expand_hyp F hyps ?out ?ids ?lps i = Inr row" if "i \<in> set [0..<num_orig_hyps s hyps]" for i
  proof -
    from that le have i: "i < length hyps"
      by simp
    with assms(2) b show ?thesis
      by (intro expand_hyp_succeeds) (auto simp: well_formed_output_def Let_def)
  qed
  then obtain rows where
    "comprehension (expand_hyp F hyps ?out ?ids ?lps) [0..<num_orig_hyps s hyps] = Inr rows"
    using comprehension_succeeds [of "[0..<num_orig_hyps s hyps]" "expand_hyp F hyps ?out ?ids ?lps"]
    by blast
  with assms(1) show ?thesis
    by (simp add: candidates_def Let_def case_prod_beta)
qed

lemma distinct_take_two:
  assumes "distinct (take w xs)" and "1 < w" and "w \<le> length xs"
  shows "xs ! 0 \<noteq> xs ! 1"
proof -
  from assms(2) obtain k where w: "w = Suc (Suc k)"
    by (cases w; cases "w - 1") auto
  with assms(3) obtain a b rest where "xs = a # b # rest"
    by (cases xs; cases "tl xs") auto
  with assms(1) w show ?thesis
    by simp
qed

lemma candidates_has_continuation:
  assumes c: "candidates F V C s hyps = Inr all_hyps"
      and inp: "model_inputs F V hyps = Inr inp"
      and wf: "well_formed_output F C inp"
      and pos: "0 < beam_size F"
  shows "\<exists>c \<in> set all_hyps. latest_token c \<noteq> Inr (stop_id V)"
proof -
  let ?out = "decode_onestep C inp"
  let ?ids = "fst (topk F C ?out)" and ?lps = "snd (topk F C ?out)"
  let ?w = "nat (beam_size F * 2)"
  from candidates_rows [OF c] inp obtain rows where
    rows: "comprehension (expand_hyp F hyps ?out ?ids ?lps) [0..<num_orig_hyps s hyps] = Inr rows"
    and all: "all_hyps = concat rows"
    by auto
  from model_inputs_Inr [OF inp] have ne: "hyps \<noteq> []"
    and b: "length (latest_tokens inp) = length hyps"
    by simp_all
  from ne have n0: "0 < num_orig_hyps s hyps"
    by (cases hyps) (simp_all add: num_orig_hyps_def)
  from rows have la: "list_all2 (\<lambda>i row. expand_hyp F hyps ?out ?ids ?lps i = Inr row)
                        [0..<num_orig_hyps s hyps] rows"
    by (simp only: comprehension_eq_Inr)
  then have len: "length rows = num_orig_hyps s hyps"
    by (auto dest: list_all2_lengthD)
  from n0 have "0 < length [0..<num_orig_hyps s hyps]"
    by simp
  from list_all2_nthD [OF la this] n0 have "expand_hyp F hyps ?out ?ids ?lps 0 = Inr (rows ! 0)"
    by simp
  from expand_hyp_Inr [OF this] have
    rl: "length (rows ! 0) = ?w"
    and rc: "\<And>j. j < ?w \<Longrightarrow> child_of F (hyps ! 0) (rows ! 0 ! j) \<and>
               last (tokens (rows ! 0 ! j)) = ?ids ! 0 ! j"
    by simp_all
  from pos have w2: "1 < ?w"
    by simp
  from wf b ne have d: "distinct (take ?w (?ids ! 0))" and wl: "?w \<le> length (?ids ! 0)"
    by (auto simp: well_formed_output_def Let_def)
  from d w2 wl have "?ids ! 0 ! 0 \<noteq> ?ids ! 0 ! 1"
    by (rule distinct_take_two)
  then obtain j where j: "j < ?w" "?ids ! 0 ! j \<noteq> stop_id V"
    using w2 by (metis zero_less_one less_trans)
  from rc [OF j(1)] j(2) have "latest_token (rows ! 0 ! j) \<noteq> Inr (stop_id V)"
    by (auto simp: child_of_def latest_token_def)
  moreover from j(1) rl n0 len have "rows ! 0 ! j \<in> set (concat rows)"
    by (metis concat.simps(2) UnI1 set_append nth_mem hd_conv_nth length_greater_0_conv list.exhaust_sel)
  ultimately show ?thesis
    unfolding all by blast
qed

lemma iteration_aux:
  assumes "iteration F V C n st"
  shows "\<forall>h \<in> set (fst (snd st)).
           length (decoder_output h) = (if n = 0 then 1 else if intradecoder F then Suc n else 0) \<and>
           length (encoder_mask h) =
             (if n = 0 then 1 else if use_temporal_attention F then Suc n else 0)"
  using assms
proof (induction rule: iteration.induct)
  case start
  show ?case by (simp add: init_hyps_def)
next
  case (again n steps hyps results hyps' results')
  from again.hyps(2) have lt: "int (length results) < beam_size F"
    by (simp add: loop_cond_def)
  note f = decode_step_facts(1) [OF again.hyps(3) lt]
  show ?case
  proof (rule ballI)
    fix c
    assume "c \<in> set (fst (snd (steps + 1, hyps', results')))"
    then have "c \<in> set hyps'"
      by simp
    with f obtain h where h: "h \<in> set hyps" "child_of F h c"
      by blast
    with again.IH show "length (decoder_output c) =
             (if Suc n = 0 then 1 else if intradecoder F then Suc (Suc n) else 0) \<and>
           length (encoder_mask c) =
             (if Suc n = 0 then 1 else if use_temporal_attention F then Suc (Suc n) else 0)"
      by (auto simp: child_of_def)
  qed
qed

lemma decode_step_succeeds:
  assumes it: "iteration F V C n (s, hyps, results)"
      and lc: "loop_cond F s results"
      and wf: "well_formed_model F C"
      and ne: "hyps \<noteq> []"
  shows "\<exists>hyps' results'. decode_step F V C s hyps results = Inr (hyps', results') \<and>
           (hyps' \<noteq> [] \<or> int (length results') = beam_size F)"
proof -
  from lc have pos: "0 < beam_size F" and lt: "int (length results) < beam_size F"
    by (simp_all add: loop_cond_def)
  from iteration_lengths [OF it] have tk: "\<forall>h \<in> set hyps. tokens h \<noteq> []"
    by fastforce
  from iteration_aux [OF it] obtain k1 k2 where
    "\<forall>h \<in> set hyps. length (decoder_output h) = k1"
    "\<forall>h \<in> set hyps. length (encoder_mask h) = k2"
    by fastforce
  with ne tk obtain inp where inp: "model_inputs F V hyps = Inr inp"
    using model_inputs_succeeds by blast
  from model_inputs_Inr [OF inp] have "length (latest_tokens inp) = length hyps"
    by simp
  with iteration_sizes [OF it] pos have "int (length (latest_tokens inp)) \<le> beam_size F"
    by (simp add: le_nat_iff)
  with wf have wfo: "well_formed_output F C inp"
    by (simp add: well_formed_model_def)
  from candidates_succeeds [OF inp wfo] obtain all_hyps where
    c: "candidates F V C s hyps = Inr all_hyps"
    by blast
  from candidates_children [OF c] have "\<forall>c \<in> set all_hyps. tokens c \<noteq> []"
    by (auto simp: child_of_def)
  from sort_hyps_succeeds [OF this] obtain srt where srt: "sort_hyps all_hyps = Inr srt"
    by blast
  from sort_hyps_set [OF srt] \<open>\<forall>c \<in> set all_hyps. tokens c \<noteq> []\<close>
  have "\<forall>c \<in> set srt. tokens c \<noteq> []"
    by simp
  from collect_hyps_succeeds [OF this] obtain hyps' results' where
    col: "collect_hyps F V s srt [] results = Inr (hyps', results')"
    by blast
  from c srt col have d: "decode_step F V C s hyps results = Inr (hyps', results')"
    by (simp add: decode_step_def)
  have "hyps' \<noteq> [] \<or> int (length results') = beam_size F"
  proof (cases "visited F V s srt [] results = srt")
    case False
    with col have "full F hyps' results'"
      by (rule collect_hyps_cut_full)
    with pos show ?thesis
      by (auto simp: full_def)
  next
    case True
    from candidates_has_continuation [OF c inp wfo pos] sort_hyps_set [OF srt]
    obtain g where "g \<in> set srt" "latest_token g \<noteq> Inr (stop_id V)"
      by auto
    with collect_hyps_visited [OF col] True have "g \<in> set hyps'"
      by simp
    then show ?thesis
      by auto
  qed
  with d show ?thesis
    by blast
qed

lemma iteration_nonempty:
  assumes "iteration F V C n st" and "well_formed_model F C" and "0 < beam_size F"
  shows "fst (snd st) \<noteq> [] \<or> int (length (snd (snd st))) = beam_size F"
  using assms
proof (induction rule: iteration.induct)
  case start
  then show ?case
    by (simp add: init_hyps_def)
next
  case (again n steps hyps results hyps' results')
  from again.hyps(2) have "int (length results) < beam_size F"
    by (simp add: loop_cond_def)
  with again.IH [OF again.prems] have "hyps \<noteq> []"
    by simp
  from decode_step_succeeds [OF again.hyps(1,2) again.prems(1) this] again.hyps(3)
  show ?case
    by simp
qed

lemma search_loop_succeeds:
  assumes "iteration F V C n (s, hyps, results)" and "well_formed_model F C" and "0 < beam_size F"
  shows "\<exists>fin. search_loop F V C s hyps results = Inr fin"
  using assms
proof (induction F V C s hyps results arbitrary: n rule: search_loop.induct)
  case (1 F V C steps hyps results)
  show ?case
  proof (cases "loop_cond F steps results")
    case False
    then show ?thesis
      by (simp add: search_loop.simps [of F V C steps hyps results])
  next
    case True
    then have "int (length results) < beam_size F"
      by (simp add: loop_cond_def)
    with iteration_nonempty [OF "1.prems"] have "hyps \<noteq> []"
      by simp
    from decode_step_succeeds [OF "1.prems"(1) True "1.prems"(2) this] obtain h1 r1 where
      d: "decode_step F V C steps hyps results = Inr (h1, r1)"
      by blast
    from "1.prems"(1) True d have "iteration F V C (Suc n) (steps + 1, h1, r1)"
      by (rule iteration.again)
    from "1.IH" [OF True d refl this "1.prems"(2,3)] True d show ?thesis
      by (simp add: search_loop.simps [of F V C steps hyps results])
  qed
qed

lemma run_beam_search_succeeds:
  assumes "well_formed_model F C" and "0 < beam_size F"
  shows "\<exists>best. run_beam_search F V C = Inr best"
proof -
  from search_loop_succeeds [OF iteration.start assms] obtain s hyps results where
    l: "search_loop F V C 0 (init_hyps F V C) [] = Inr (s, hyps, results)"
    by (metis prod_cases3)
  from search_loop_final [OF l] have it: "iteration F V C s (s, hyps, results)"
    by simp
  from iteration_nonempty [OF it assms] assms(2) have ne: "final_pool hyps results \<noteq> []"
    by (auto simp: final_pool_def)
  from iteration_lengths [OF it] have "\<forall>h \<in> set hyps \<union> set results. tokens h \<noteq> []"
    by fastforce
  then have "\<forall>h \<in> set (final_pool hyps results). tokens h \<noteq> []"
    by (simp add: final_pool_def)
  from sort_hyps_succeeds [OF this] obtain srt where srt: "sort_hyps (final_pool hyps results) = Inr srt"
    by blast
  from sort_hyps_length [OF srt] ne have "0 < length srt"
    by simp
  with l srt show ?thesis
    by (simp add: run_beam_search_def subscript_def)
qed

lemma stub_well_formed: "well_formed_model (flags0 2 mx mn) C0"
proof -
  have "well_formed_output (flags0 2 mx mn) C0 inp" if "int (length (latest_tokens inp)) \<le> 2" for inp
  proof -
    from that have b: "length (latest_tokens inp) \<le> 2"
      by simp
    have rows: "fst (topk (flags0 2 mx mn) C0 stub_out) = [[5, 3, 6, 7], [3, 5, 6, 7]]"
      "length (snd (topk (flags0 2 mx mn) C0 stub_out)) = 2"
      "length (snd (topk (flags0 2 mx mn) C0 stub_out) ! 0) = 4"
      "length (snd (topk (flags0 2 mx mn) C0 stub_out) ! 1) = 4"
      by (simp_all add: topk_def flags0_def stub_out_def)
    have two: "i = 0 \<or> i = 1" if "i < length (latest_tokens inp)" for i
      using that b by arith
    have ok: "4 \<le> length (fst (topk (flags0 2 mx mn) C0 stub_out) ! i) \<and>
       4 \<le> length (snd (topk (flags0 2 mx mn) C0 stub_out) ! i) \<and>
       distinct (take 4 (fst (topk (flags0 2 mx mn) C0 stub_out) ! i))" if "i = 0 \<or> i = 1" for i
      using that rows by (elim disjE) simp_all
    have "\<forall>i \<in> {0..<length (latest_tokens inp)}.
       4 \<le> length (fst (topk (flags0 2 mx mn) C0 stub_out) ! i) \<and>
       4 \<le> length (snd (topk (flags0 2 mx mn) C0 stub_out) ! i) \<and>
       distinct (take 4 (fst (topk (flags0 2 mx mn) C0 stub_out) ! i))"
    proof
      fix i
      assume "i \<in> {0..<length (latest_tokens inp)}"
      then have "i = 0 \<or> i = 1"
        using two by simp
      then show "4 \<le> length (fst (topk (flags0 2 mx mn) C0 stub_out) ! i) \<and>
       4 \<le> length (snd (topk (flags0 2 mx mn) C0 stub_out) ! i) \<and>
       distinct (take 4 (fst (topk (flags0 2 mx mn) C0 stub_out) ! i))"
        by (rule ok)
    qed
    moreover have "nat (beam_size (flags0 2 mx mn) * 2) = 4"
      by (simp add: flags0_def)
    moreover have "decode_onestep C0 inp = stub_out"
      by (simp add: C0_def)
    ultimately show ?thesis
      using b rows(1,2) unfolding well_formed_output_def Let_def
      by (simp add: stub_out_def flags0_def)
  qed
  then show ?thesis
    by (simp add: well_formed_model_def flags0_def)
qed

lemma iteration_deterministic:
  assumes "iteration F V C n st" and "iteration F V C n st'"
  shows "st = st'"
  using assms
proof (induction arbitrary: st' rule: iteration.induct)
  case start
  from start show ?case
    by (cases rule: iteration.cases) simp_all
next
  case (again n steps hyps results hyps' results')
  from again.prems show ?case
  proof (cases rule: iteration.cases)
    case (again s2 h2 r2 h2' r2')
    from again.IH [OF again(2)] have "s2 = steps" "h2 = hyps" "r2 = results"
      by simp_all
    with again(4) again.hyps(3) have "h2' = hyps'" "r2' = results'"
      by simp_all
    with again(1) \<open>s2 = steps\<close> show ?thesis
      by simp
  qed
qed

lemma iteration_no_successor:
  assumes "iteration F V C n (steps, hyps, results)" and "\<not> loop_cond F steps results"
  shows "\<not> iteration F V C (Suc n) st"
proof
  assume "iteration F V C (Suc n) st"
  then show False
  proof (cases rule: iteration.cases)
    case (again s2 h2 r2 h2' r2')
    from iteration_deterministic [OF again(2) assms(1)] again(3) assms(2) show False
      by simp
  qed
qed

lemma unfinished_beam_returned:
  assumes mm: "max_dec_steps F < min_dec_steps F" and pos: "0 < beam_size F"
      and wf: "well_formed_model F C"
  shows "\<exists>best steps hyps.
           search_loop F V C 0 (init_hyps F V C) [] = Inr (steps, hyps, []) \<and>
           (0 \<le> max_dec_steps F \<longrightarrow> int steps = max_dec_steps F) \<and>
           run_beam_search F V C = Inr best \<and> best \<in> set hyps"
proof -
  from run_beam_search_succeeds [OF wf pos] obtain best where b: "run_beam_search F V C = Inr best"
    by blast
  from run_beam_search_Inr [OF b] obtain steps hyps results srt where
    l: "search_loop F V C 0 (init_hyps F V C) [] = Inr (steps, hyps, results)"
    and srt: "sort_hyps (final_pool hyps results) = Inr srt" "srt \<noteq> []" "best = srt ! 0"
    by blast
  from search_loop_final [OF l] have it: "iteration F V C steps (steps, hyps, results)"
    and nc: "\<not> loop_cond F steps results"
    by simp_all
  from iteration_stop [OF it] mm have r: "results = []"
    by simp
  from nc r pos have ge: "max_dec_steps F \<le> int steps"
    by (simp add: loop_cond_def)
  have eq: "0 \<le> max_dec_steps F \<longrightarrow> int steps = max_dec_steps F"
  proof
    assume "0 \<le> max_dec_steps F"
    from iteration_bound [OF it this] ge show "int steps = max_dec_steps F"
      by simp
  qed
  from srt have "best \<in> set srt"
    by simp
  with sort_hyps_set [OF srt(1)] r have m: "best \<in> set hyps"
    by (simp add: final_pool_def)
  from l r have l': "search_loop F V C 0 (init_hyps F V C) [] = Inr (steps, hyps, [])"
    by simp
  let ?P = "\<lambda>best steps hyps. search_loop F V C 0 (init_hyps F V C) [] = Inr (steps, hyps, []) \<and>
           (0 \<le> max_dec_steps F \<longrightarrow> int steps = max_dec_steps F) \<and>
           run_beam_search F V C = Inr best \<and> best \<in> set hyps"
  from l' eq b m have "?P best steps hyps"
    by (intro conjI)
  then show ?thesis
    by (intro exI)
qed











subsection \<open>Trigrams\<close>

lemma zip_star3:
  "zip_star [a, b, c] = map (\<lambda>(x, y, z). [x, y, z]) (zip a (zip b c))"
proof (induction a arbitrary: b c)
  case Nil
  show ?case by (simp add: zip_star.simps)
next
  case (Cons x a)
  show ?case
  proof (cases b)
    case Nil
    then show ?thesis by (simp add: zip_star.simps)
  next
    case bc: (Cons y b')
    show ?thesis
    proof (cases c)
      case Nil
      then show ?thesis by (simp add: zip_star.simps)
    next
      case (Cons z c')
      with bc Cons.IH [of b' c'] show ?thesis
        by (subst zip_star.simps) simp
    qed
  qed
qed

lemma find_ngrams3:
  "find_ngrams xs 3 = map (\<lambda>(x, y, z). [x, y, z]) (zip xs (zip (drop 1 xs) (drop 2 xs)))"
proof -
  have "[0..<3] = [0, 1, 2]"
    by (simp add: upt_rec)
  then show ?thesis
    by (simp add: find_ngrams_def zip_star3)
qed

lemma length_find_ngrams3: "length (find_ngrams xs 3) = length xs - 2"
  by (simp add: find_ngrams3)

lemma nth_find_ngrams3:
  assumes "k < length xs - 2"
  shows "find_ngrams xs 3 ! k = take 3 (drop k xs)"
proof -
  have "take 3 (drop k xs) = [xs ! k, xs ! (k + 1), xs ! (k + 2)]"
    using assms
    by (simp add: numeral_3_eq_3 take_Suc_conv_app_nth)
  with assms show ?thesis
    by (simp add: find_ngrams3)
qed

lemma counts_one_distinct: "(\<forall>g \<in> set ws. count_list ws g = 1) = distinct ws"
proof (induction ws)
  case Nil
  show ?case by simp
next
  case (Cons w ws)
  have "(\<forall>g \<in> set (w # ws). count_list (w # ws) g = 1) =
        (w \<notin> set ws \<and> (\<forall>g \<in> set ws. count_list ws g = 1))"
    by (auto simp: count_list_0_iff)
  with Cons.IH show ?case by simp
qed

lemma not_distinct_nth:
  "(\<not> distinct ws) = (\<exists>j < length ws. \<exists>i < j. ws ! i = ws ! j)"
proof
  assume "\<not> distinct ws"
  then obtain i j where ij: "i < length ws" "j < length ws" "i \<noteq> j" "ws ! i = ws ! j"
    by (auto simp: distinct_conv_nth)
  show "\<exists>j < length ws. \<exists>i < j. ws ! i = ws ! j"
  proof (cases "i < j")
    case True
    with ij show ?thesis by blast
  next
    case False
    with ij have "j < i" by simp
    with ij show ?thesis by metis
  qed
next
  assume "\<exists>j < length ws. \<exists>i < j. ws ! i = ws ! j"
  then obtain i j where ij: "j < length ws" "i < j" "ws ! i = ws ! j"
    by blast
  show "\<not> distinct ws"
  proof
    assume "distinct ws"
    with ij have "i = j"
      by (simp add: nth_eq_iff_index_eq)
    with ij show False by simp
  qed
qed

lemma has_trigram_iff: "has_trigram xs = repeated_window3 xs"
proof -
  let ?ws = "find_ngrams xs 3"
  have "has_trigram xs = (\<not> distinct ?ws)"
    unfolding has_trigram_def Let_def by (simp only: counts_one_distinct)
  also have "\<dots> = (\<exists>j < length ?ws. \<exists>i < j. ?ws ! i = ?ws ! j)"
    by (rule not_distinct_nth)
  also have "\<dots> = (\<exists>j < length xs - 2. \<exists>i < j. take 3 (drop i xs) = take 3 (drop j xs))"
    by (simp add: length_find_ngrams3 nth_find_ngrams3 cong: conj_cong)
  also have "\<dots> = repeated_window3 xs"
    by (simp add: repeated_window3_def Bex_def)
  finally show ?thesis .
qed


subsection \<open>The trigram guard\<close>

text \<open>
  Claim C3. \<open>extend\<close> always returns a new hypothesis whose tokens are the receiver's
  followed by the new token. Its last log probability is negative infinity exactly when
  trigram avoidance is on and the extended token sequence contains a 3-token window
  that occurs more than once; in every other case it is the log probability supplied.
\<close>

theorem extend_trigram_guard:
  "tokens (extend F h token lp st d m a p c) = tokens h @ [token] \<and>
   log_probs (extend F h token lp st d m a p c) =
     log_probs h @
       [if avoid_trigrams F \<and> repeated_window3 (tokens h @ [token]) then NegInf else lp]"
  by (simp add: extend_def has_trigram_iff)

theorem extend_trigram_guard_witness:
  "repeated_window3 ([1, 2, 3, 1, 2] @ [3]) \<and>
   log_probs (extend (flags0 1 1 0) (hyp0 [1, 2, 3, 1, 2] [Fin 0, Fin 0, Fin 0, Fin 0, Fin 0])
                3 (Fin (-1)) ([], []) None None [] 1 []) =
     [Fin 0, Fin 0, Fin 0, Fin 0, Fin 0, NegInf] \<and>
   \<not> repeated_window3 ([1, 2, 3, 1, 2] @ [4]) \<and>
   log_probs (extend (flags0 1 1 0) (hyp0 [1, 2, 3, 1, 2] [Fin 0, Fin 0, Fin 0, Fin 0, Fin 0])
                4 (Fin (-1)) ([], []) None None [] 1 []) =
     [Fin 0, Fin 0, Fin 0, Fin 0, Fin 0, Fin (-1)]"
proof -
  have r3: "repeated_window3 ([1, 2, 3, 1, 2] @ [3])"
    by code_simp
  have r4: "\<not> repeated_window3 ([1, 2, 3, 1, 2] @ [4])"
    by code_simp
  show ?thesis
    using r3 r4
      extend_trigram_guard [of "flags0 1 1 0" "hyp0 [1, 2, 3, 1, 2] [Fin 0, Fin 0, Fin 0, Fin 0, Fin 0]"
        3 "Fin (-1)" "([], [])" None None "[]" 1 "[]"]
      extend_trigram_guard [of "flags0 1 1 0" "hyp0 [1, 2, 3, 1, 2] [Fin 0, Fin 0, Fin 0, Fin 0, Fin 0]"
        4 "Fin (-1)" "([], [])" None None "[]" 1 "[]"]
    by (simp add: flags0_def hyp0_def)
qed


subsection \<open>Routing of the candidates\<close>

text \<open>
  Claim C4. In the scan of step \<open>s\<close>, a visited candidate whose latest token is the
  stop token is appended to the results when \<open>s\<close> is at least \<open>min_dec_steps\<close> and
  is dropped otherwise, reaching neither list; a visited candidate with any other latest
  token is appended to the next beam. So the next beam is the old one followed by the
  visited candidates without stop token, and the results are the old ones followed by
  the visited candidates with stop token, or unchanged before \<open>min_dec_steps\<close>.
\<close>

theorem stop_token_routing:
  assumes "collect_hyps F V s cands hyps results = Inr (hyps', results')"
  shows "hyps' = hyps @ filter (\<lambda>h. latest_token h \<noteq> Inr (stop_id V))
                         (visited F V s cands hyps results) \<and>
         results' = results @
           (if min_dec_steps F \<le> int s
            then filter (\<lambda>h. latest_token h = Inr (stop_id V)) (visited F V s cands hyps results)
            else [])"
  using assms by (rule collect_hyps_visited)

theorem stop_token_routing_witness:
  "collect_hyps (flags0 2 5 0) V0 0
     [hyp0 [2, 5] [], hyp0 [2, 3] [], hyp0 [2, 6] [], hyp0 [2, 7] []] [] [] =
     Inr ([hyp0 [2, 5] [], hyp0 [2, 6] []], [hyp0 [2, 3] []]) \<and>
   collect_hyps (flags0 2 5 3) V0 0
     [hyp0 [2, 5] [], hyp0 [2, 3] [], hyp0 [2, 6] [], hyp0 [2, 7] []] [] [] =
     Inr ([hyp0 [2, 5] [], hyp0 [2, 6] []], []) \<and>
   filter (\<lambda>h. latest_token h = Inr (stop_id V0))
     (visited (flags0 2 5 3) V0 0
        [hyp0 [2, 5] [], hyp0 [2, 3] [], hyp0 [2, 6] [], hyp0 [2, 7] []] [] []) =
     [hyp0 [2, 3] []]"
proof -
  let ?cands = "[hyp0 [2, 5] [], hyp0 [2, 3] [], hyp0 [2, 6] [], hyp0 [2, 7] []]"
  have a: "collect_hyps (flags0 2 5 0) V0 0 ?cands [] [] =
             Inr ([hyp0 [2, 5] [], hyp0 [2, 6] []], [hyp0 [2, 3] []])"
    by (simp add: route_def latest_token_def full_def flags0_def V0_def hyp0_def)
  have b: "collect_hyps (flags0 2 5 3) V0 0 ?cands [] [] =
             Inr ([hyp0 [2, 5] [], hyp0 [2, 6] []], [])"
    by (simp add: route_def latest_token_def full_def flags0_def V0_def hyp0_def)
  have c: "visited (flags0 2 5 3) V0 0 ?cands [] [] =
             [hyp0 [2, 5] [], hyp0 [2, 3] [], hyp0 [2, 6] []]"
    by (simp add: route_def latest_token_def full_def flags0_def V0_def hyp0_def)
  from stop_token_routing [OF a] stop_token_routing [OF b] a b c show ?thesis
    by (simp add: latest_token_def V0_def hyp0_def)
qed

subsection \<open>The cut-off of the scan\<close>




subsection \<open>The number of candidates\<close>

text \<open>
  Claim C6. When the candidates of a step are built, on step 0 exactly the first
  hypothesis of the beam is expanded, into \<open>2 * beam_size\<close> candidates; on every later
  step every hypothesis of the beam is expanded, into \<open>2 * beam_size\<close> candidates
  each, so that their number is the size of the beam times \<open>2 * beam_size\<close>. The
  candidates come in the order of the hypotheses they extend.
\<close>

theorem candidates_count:
  assumes "candidates F V C steps hyps = Inr all_hyps"
  shows "length all_hyps = (if steps = 0 then 1 else length hyps) * nat (2 * beam_size F) \<and>
         map (butlast \<circ> tokens) all_hyps =
           concat (map (\<lambda>h. replicate (nat (2 * beam_size F)) (tokens h))
                     (take (if steps = 0 then 1 else length hyps) hyps))"
proof -
  let ?n = "num_orig_hyps steps hyps" and ?w = "nat (beam_size F * 2)"
  from candidates_Inr [OF assms] obtain rows where
    all: "all_hyps = concat rows" and len: "length rows = ?n" and le: "?n \<le> length hyps"
    and row: "\<And>i. i < length rows \<Longrightarrow> length (rows ! i) = ?w \<and>
                 (\<forall>c \<in> set (rows ! i). child_of F (hyps ! i) c)"
    by blast
  have "\<forall>r \<in> set rows. length r = ?w"
    using row by (auto simp: in_set_conv_nth)
  then have "length (concat rows) = length rows * ?w"
    by (rule length_concat_const)
  then have 1: "length all_hyps = ?n * ?w"
    by (simp only: all len)
  have "map (map (butlast \<circ> tokens)) rows = map (\<lambda>h. replicate ?w (tokens h)) (take ?n hyps)"
  proof (rule nth_equalityI)
    show "length (map (map (butlast \<circ> tokens)) rows) =
          length (map (\<lambda>h. replicate ?w (tokens h)) (take ?n hyps))"
      using len le by simp
  next
    fix i
    assume "i < length (map (map (butlast \<circ> tokens)) rows)"
    then have i: "i < length rows"
      by simp
    have "map (butlast \<circ> tokens) (rows ! i) = replicate ?w (tokens (hyps ! i))"
    proof (rule replicate_eqI)
      show "length (map (butlast \<circ> tokens) (rows ! i)) = ?w"
        using row [OF i] by simp
    next
      fix y
      assume "y \<in> set (map (butlast \<circ> tokens) (rows ! i))"
      then obtain c where "c \<in> set (rows ! i)" "y = butlast (tokens c)"
        by auto
      with row [OF i] show "y = tokens (hyps ! i)"
        by (auto simp: child_of_def)
    qed
    with i len le show "map (map (butlast \<circ> tokens)) rows ! i =
                        map (\<lambda>h. replicate ?w (tokens h)) (take ?n hyps) ! i"
      by simp
  qed
  then have 2: "map (butlast \<circ> tokens) all_hyps =
                concat (map (\<lambda>h. replicate ?w (tokens h)) (take ?n hyps))"
    by (simp add: all map_concat)
  have w: "?w = nat (2 * beam_size F)"
    by (simp add: mult.commute)
  from 1 2 show ?thesis
    unfolding w by (simp add: num_orig_hyps_def)
qed

theorem candidates_count_witness:
  "(\<exists>all_hyps. candidates (flags0 2 5 0) V0 C0 0 (init_hyps (flags0 2 5 0) V0 C0) = Inr all_hyps \<and>
      length (init_hyps (flags0 2 5 0) V0 C0) = 2 \<and> length all_hyps = 4) \<and>
   (\<exists>all_hyps. candidates (flags0 2 5 0) V0 C0 1 [hyp0 [2, 5] [Fin 0, Fin (-1)], hyp0 [2, 6] [Fin 0, Fin (-3)]] =
      Inr all_hyps \<and> length all_hyps = 8)"
proof -
  let ?F = "flags0 2 5 0"
  have "map_sum id (map tokens) (candidates ?F V0 C0 0 (init_hyps ?F V0 C0)) =
          Inr [[2, 5], [2, 3], [2, 6], [2, 7]]"
    by code_simp
  from inr_cases [OF this] obtain a where a: "candidates ?F V0 C0 0 (init_hyps ?F V0 C0) = Inr a"
    by blast
  have "map_sum id (map tokens)
          (candidates ?F V0 C0 1 [hyp0 [2, 5] [Fin 0, Fin (-1)], hyp0 [2, 6] [Fin 0, Fin (-3)]]) =
          Inr [[2, 5, 5], [2, 5, 3], [2, 5, 6], [2, 5, 7], [2, 6, 3], [2, 6, 5], [2, 6, 6], [2, 6, 7]]"
    by code_simp
  from inr_cases [OF this] obtain b where
    b: "candidates ?F V0 C0 1 [hyp0 [2, 5] [Fin 0, Fin (-1)], hyp0 [2, 6] [Fin 0, Fin (-3)]] = Inr b"
    by blast
  have l: "length (init_hyps ?F V0 C0) = 2"
    by (simp add: init_hyps_def flags0_def)
  from candidates_count [OF a] candidates_count [OF b] a b l show ?thesis
    by (simp add: flags0_def)
qed


subsection \<open>The arithmetic has no epsilon\<close>




subsection \<open>No stop token in the beam\<close>

text \<open>
  Claim C10. Once the first selection has run, every hypothesis of the beam at the
  start of a loop iteration has a latest token other than the stop token, and every
  hypothesis in the results ends with the stop token: finished hypotheses never return
  to the beam. Hence, with an unknown-token id other than the stop id, no stop token
  is among the latest tokens passed to the model.
\<close>

theorem beam_holds_no_stop_token:
  assumes "iteration F V C n (steps, hyps, results)" and "0 < n"
  shows "(\<forall>h \<in> set hyps. \<exists>t. latest_token h = Inr t \<and> t \<noteq> stop_id V) \<and>
         (\<forall>h \<in> set results. latest_token h = Inr (stop_id V)) \<and>
         (model_inputs F V hyps = Inr inp \<and> unk_id V \<noteq> stop_id V \<longrightarrow>
            stop_id V \<notin> set (latest_tokens inp))"
proof -
  from iteration_lengths [OF assms(1)] have ne: "\<forall>h \<in> set hyps. tokens h \<noteq> []"
    by fastforce
  from iteration_stop [OF assms(1)] assms(2) have
    ns: "\<forall>h \<in> set hyps. latest_token h \<noteq> Inr (stop_id V)"
    and st: "\<forall>h \<in> set results. latest_token h = Inr (stop_id V)"
    by simp_all
  from ne ns have 1: "\<forall>h \<in> set hyps. \<exists>t. latest_token h = Inr t \<and> t \<noteq> stop_id V"
    by (auto simp: latest_token_def)
  have "stop_id V \<notin> set (latest_tokens inp)"
    if "model_inputs F V hyps = Inr inp" and u: "unk_id V \<noteq> stop_id V"
  proof -
    from model_inputs_Inr [OF that(1)] have
      "latest_tokens inp =
           map (\<lambda>h. if 0 \<le> last (tokens h) \<and> last (tokens h) < vocab_size V
                     then last (tokens h) else unk_id V) hyps"
      by simp
    moreover from ne ns have "\<forall>h \<in> set hyps. last (tokens h) \<noteq> stop_id V"
      by (auto simp: latest_token_def)
    ultimately show ?thesis
      using u by auto
  qed
  then have 3: "model_inputs F V hyps = Inr inp \<and> unk_id V \<noteq> stop_id V \<longrightarrow>
            stop_id V \<notin> set (latest_tokens inp)"
    by blast
  from 1 st 3 show ?thesis
    by (intro conjI)
qed

theorem beam_holds_no_stop_token_witness:
  "\<exists>hyps results inp.
     iteration (flags0 2 5 0) V0 C0 1 (1, hyps, results) \<and> (0::nat) < 1 \<and>
     map tokens hyps = [[2, 5], [2, 6]] \<and> map tokens results = [[2, 3]] \<and>
     model_inputs (flags0 2 5 0) V0 hyps = Inr inp \<and> unk_id V0 \<noteq> stop_id V0 \<and>
     (\<forall>h \<in> set hyps. \<exists>t. latest_token h = Inr t \<and> t \<noteq> stop_id V0) \<and>
     (\<forall>h \<in> set results. latest_token h = Inr (stop_id V0)) \<and>
     stop_id V0 \<notin> set (latest_tokens inp)"
proof -
  let ?F = "flags0 2 5 0"
  from stub_iteration obtain hyps results where
    it: "iteration ?F V0 C0 1 (1, hyps, results)"
    and t: "map tokens hyps = [[2, 5], [2, 6]]" "map tokens results = [[2, 3]]"
    and i: "\<not> isl (model_inputs ?F V0 hyps)"
    by (elim exE conjE)
  have p: "(0::nat) < 1"
    by simp
  have u: "unk_id V0 \<noteq> stop_id V0"
    by (simp add: V0_def)
  from not_isl_Inr [OF i] obtain inp where inp: "model_inputs ?F V0 hyps = Inr inp"
    by (elim exE)
  note inst = beam_holds_no_stop_token [OF it p, of inp]
  from inst inp u have s: "stop_id V0 \<notin> set (latest_tokens inp)"
    by (elim conjE) (erule impE, intro conjI)
  let ?P = "\<lambda>hyps results inp. iteration (flags0 2 5 0) V0 C0 1 (1, hyps, results) \<and> (0::nat) < 1 \<and>
     map tokens hyps = [[2, 5], [2, 6]] \<and> map tokens results = [[2, 3]] \<and>
     model_inputs (flags0 2 5 0) V0 hyps = Inr inp \<and> unk_id V0 \<noteq> stop_id V0 \<and>
     (\<forall>h \<in> set hyps. \<exists>t. latest_token h = Inr t \<and> t \<noteq> stop_id V0) \<and>
     (\<forall>h \<in> set results. latest_token h = Inr (stop_id V0)) \<and>
     stop_id V0 \<notin> set (latest_tokens inp)"
  from it p t inp u inst [THEN conjunct1] inst [THEN conjunct2, THEN conjunct1] s
  have "?P hyps results inp"
    by (intro conjI)
  then show ?thesis
    by (intro exI)
qed


subsection \<open>The batch passed to the model\<close>

text \<open>
  Claim C7 says that one entry per hypothesis is passed to the model on step 0. With a
  beam size of 2 the first call receives two latest tokens: the beam starts with
  \<open>beam_size\<close> copies of the start hypothesis, and all of them are passed.
\<close>

theorem first_batch_counterexample:
  "map_sum id (length \<circ> latest_tokens)
     (model_inputs (flags0 2 5 0) V0 (init_hyps (flags0 2 5 0) V0 C0)) = Inr 2"
  by code_simp

text \<open>
  Claim C7, amended. At every decoding step the latest tokens, the decoder states and
  the coverage vectors passed to the one model call are as many as the hypotheses of
  the current beam. The beam holds \<open>beam_size\<close> hypotheses on step 0 and between 1
  and \<open>beam_size\<close> hypotheses on every later step at which the model is called.
\<close>

theorem model_batch_size:
  assumes "iteration F V C n (steps, hyps, results)"
      and "loop_cond F steps results"
      and "model_inputs F V hyps = Inr inp"
  shows "length (latest_tokens inp) = length hyps \<and>
         length (dec_init_states inp) = length hyps \<and>
         length (prev_coverage inp) = length hyps \<and>
         (steps = 0 \<longrightarrow> int (length hyps) = beam_size F) \<and>
         1 \<le> length hyps \<and> int (length hyps) \<le> beam_size F"
proof -
  from assms(2) have pos: "0 < beam_size F"
    by (simp add: loop_cond_def)
  from model_inputs_Inr [OF assms(3)] have
    1: "length (latest_tokens inp) = length hyps"
       "length (dec_init_states inp) = length hyps"
       "length (prev_coverage inp) = length hyps"
    and ne: "hyps \<noteq> []"
    by simp_all
  from iteration_steps [OF assms(1)] have "steps = n"
    by simp
  with iteration_sizes [OF assms(1)] pos have
    2: "steps = 0 \<longrightarrow> int (length hyps) = beam_size F" and 3: "int (length hyps) \<le> beam_size F"
    by auto
  from ne have 4: "1 \<le> length hyps"
    by (cases hyps) simp_all
  from 1 2 4 3 show ?thesis
    by (intro conjI)
qed

theorem model_batch_size_witness:
  "\<exists>inp. iteration (flags0 2 5 0) V0 C0 0 (0, init_hyps (flags0 2 5 0) V0 C0, []) \<and>
     loop_cond (flags0 2 5 0) 0 [] \<and>
     model_inputs (flags0 2 5 0) V0 (init_hyps (flags0 2 5 0) V0 C0) = Inr inp \<and>
     length (latest_tokens inp) = 2 \<and> beam_size (flags0 2 5 0) = 2"
proof -
  let ?F = "flags0 2 5 0"
  have "\<not> isl (model_inputs ?F V0 (init_hyps ?F V0 C0))"
    by code_simp
  from not_isl_Inr [OF this] obtain inp where
    inp: "model_inputs ?F V0 (init_hyps ?F V0 C0) = Inr inp"
    by (elim exE)
  have c: "loop_cond ?F 0 []"
    by (simp add: loop_cond_def flags0_def)
  have l: "length (init_hyps ?F V0 C0) = 2" and b: "beam_size ?F = 2"
    by (simp_all add: init_hyps_def flags0_def)
  from model_batch_size [OF iteration.start c inp] l
  have "length (latest_tokens inp) = 2"
    by simp
  with iteration.start [of ?F V0 C0] c inp b
  have "iteration ?F V0 C0 0 (0, init_hyps ?F V0 C0, []) \<and> loop_cond ?F 0 [] \<and>
     model_inputs ?F V0 (init_hyps ?F V0 C0) = Inr inp \<and>
     length (latest_tokens inp) = 2 \<and> beam_size ?F = 2"
    by (intro conjI)
  then show ?thesis
    by (rule exI)
qed

subsection \<open>The bound on the decoding steps\<close>

text \<open>
  Claim C2. With \<open>max_dec_steps > 0\<close>: the loop state after \<open>n\<close> iterations has its
  step counter at \<open>n\<close>, and \<open>n\<close> is at most \<open>max_dec_steps\<close>. In a state whose counter
  has reached \<open>max_dec_steps\<close> or whose results hold \<open>beam_size\<close> hypotheses the
  loop exits at once: it returns that very state, and no further iteration follows. The
  loop, which is a total function, ends in a state reached by that many iterations in
  which one of the two holds; and the hypothesis returned has at least 1 and at most
  \<open>max_dec_steps + 1\<close> tokens.
\<close>

theorem search_terminates_within_bound:
  assumes "0 < max_dec_steps F"
  shows "(iteration F V C n (steps, hyps, results) \<longrightarrow>
            steps = n \<and> int n \<le> max_dec_steps F \<and>
            (max_dec_steps F \<le> int steps \<or> beam_size F \<le> int (length results) \<longrightarrow>
               search_loop F V C steps hyps results = Inr (steps, hyps, results) \<and>
               (\<forall>st. \<not> iteration F V C (Suc n) st))) \<and>
         (search_loop F V C 0 (init_hyps F V C) [] = Inr (steps', hyps', results') \<longrightarrow>
            iteration F V C steps' (steps', hyps', results') \<and>
            (int steps' = max_dec_steps F \<or> beam_size F \<le> int (length results'))) \<and>
         (run_beam_search F V C = Inr best \<longrightarrow>
            1 \<le> length (tokens best) \<and> int (length (tokens best)) \<le> max_dec_steps F + 1)"
proof -
  from assms have mx: "0 \<le> max_dec_steps F"
    by simp
  have 1: "steps = n \<and> int n \<le> max_dec_steps F \<and>
            (max_dec_steps F \<le> int steps \<or> beam_size F \<le> int (length results) \<longrightarrow>
               search_loop F V C steps hyps results = Inr (steps, hyps, results) \<and>
               (\<forall>st. \<not> iteration F V C (Suc n) st))"
    if it: "iteration F V C n (steps, hyps, results)"
  proof -
    from iteration_steps [OF it] iteration_bound [OF it mx]
    have a: "steps = n" "int n \<le> max_dec_steps F"
      by simp_all
    have "search_loop F V C steps hyps results = Inr (steps, hyps, results) \<and>
               (\<forall>st. \<not> iteration F V C (Suc n) st)"
      if "max_dec_steps F \<le> int steps \<or> beam_size F \<le> int (length results)"
    proof -
      from that have nc: "\<not> loop_cond F steps results"
        by (auto simp: loop_cond_def)
      then have "search_loop F V C steps hyps results = Inr (steps, hyps, results)"
        by (simp add: search_loop.simps [of F V C steps hyps results])
      with iteration_no_successor [OF it nc] show ?thesis
        by simp
    qed
    with a show ?thesis
      by blast
  qed
  have fin: "iteration F V C s (s, h, r) \<and> (int s = max_dec_steps F \<or> beam_size F \<le> int (length r))"
    if "search_loop F V C 0 (init_hyps F V C) [] = Inr (s, h, r)" for s h r
  proof -
    from search_loop_final [OF that] have it: "iteration F V C s (s, h, r)"
      and nc: "\<not> loop_cond F s r"
      by simp_all
    from iteration_bound [OF it mx] nc show ?thesis
      using it by (auto simp: loop_cond_def)
  qed
  have 3: "1 \<le> length (tokens best) \<and> int (length (tokens best)) \<le> max_dec_steps F + 1"
    if "run_beam_search F V C = Inr best"
  proof -
    from run_beam_search_Inr [OF that] obtain s h r srt where
      l: "search_loop F V C 0 (init_hyps F V C) [] = Inr (s, h, r)"
      and srt: "sort_hyps (final_pool h r) = Inr srt" "srt \<noteq> []" "best = srt ! 0"
      by blast
    from fin [OF l] have it: "iteration F V C s (s, h, r)"
      by simp
    from srt have "best \<in> set srt"
      by simp
    with sort_hyps_set [OF srt(1)] have "best \<in> set h \<union> set r"
      by (auto simp: final_pool_def split: if_splits)
    with iteration_lengths [OF it] have "1 \<le> length (tokens best) \<and> length (tokens best) \<le> Suc s"
      by fastforce
    with iteration_bound [OF it mx] show ?thesis
      by simp
  qed
  from 1 have c1: "iteration F V C n (steps, hyps, results) \<longrightarrow>
            steps = n \<and> int n \<le> max_dec_steps F \<and>
            (max_dec_steps F \<le> int steps \<or> beam_size F \<le> int (length results) \<longrightarrow>
               search_loop F V C steps hyps results = Inr (steps, hyps, results) \<and>
               (\<forall>st. \<not> iteration F V C (Suc n) st))"
    by (rule impI)
  from fin [of steps' hyps' results'] have c2:
    "search_loop F V C 0 (init_hyps F V C) [] = Inr (steps', hyps', results') \<longrightarrow>
            iteration F V C steps' (steps', hyps', results') \<and>
            (int steps' = max_dec_steps F \<or> beam_size F \<le> int (length results'))"
    by (rule impI)
  from 3 have c3: "run_beam_search F V C = Inr best \<longrightarrow>
            1 \<le> length (tokens best) \<and> int (length (tokens best)) \<le> max_dec_steps F + 1"
    by (rule impI)
  from c1 c2 c3 show ?thesis
    by (intro conjI)
qed

theorem search_terminates_within_bound_witness:
  "0 < max_dec_steps (flags0 2 5 0) \<and>
   (\<exists>hyps results best.
      search_loop (flags0 2 5 0) V0 C0 0 (init_hyps (flags0 2 5 0) V0 C0) [] = Inr (2, hyps, results) \<and>
      iteration (flags0 2 5 0) V0 C0 2 (2, hyps, results) \<and>
      int 2 < max_dec_steps (flags0 2 5 0) \<and>
      beam_size (flags0 2 5 0) \<le> int (length results) \<and>
      search_loop (flags0 2 5 0) V0 C0 2 hyps results = Inr (2, hyps, results) \<and>
      (\<forall>st. \<not> iteration (flags0 2 5 0) V0 C0 3 st) \<and>
      run_beam_search (flags0 2 5 0) V0 C0 = Inr best \<and> tokens best = [2, 3] \<and>
      int (length (tokens best)) \<le> max_dec_steps (flags0 2 5 0) + 1)"
proof -
  let ?F = "flags0 2 5 0"
  let ?l = "search_loop ?F V0 C0 0 (init_hyps ?F V0 C0) []"
  have p: "0 < max_dec_steps ?F"
    by (simp add: flags0_def)
  have m: "int 2 < max_dec_steps ?F"
    by (simp add: flags0_def)
  have "map_sum id (\<lambda>(s, h, r). (s, length r)) ?l = Inr (2, 2)"
    by code_simp
  then obtain hyps results where l: "?l = Inr (2, hyps, results)" and r: "length results = 2"
    by (cases ?l) auto
  from r have b: "beam_size ?F \<le> int (length results)"
    by (simp add: flags0_def)
  have "map_sum id tokens (run_beam_search ?F V0 C0) = Inr [2, 3]"
    by code_simp
  then obtain best where rb: "run_beam_search ?F V0 C0 = Inr best" "tokens best = [2, 3]"
    by (cases "run_beam_search ?F V0 C0") auto
  note inst = search_terminates_within_bound [OF p, of V0 C0 2 2 hyps results 2 hyps results best]
  from inst l have it: "iteration ?F V0 C0 2 (2, hyps, results)"
    by simp
  from inst it b have ex: "search_loop ?F V0 C0 2 hyps results = Inr (2, hyps, results)"
    and ns: "\<forall>st. \<not> iteration ?F V0 C0 (Suc 2) st"
    by simp_all
  from ns have ns3: "\<forall>st. \<not> iteration ?F V0 C0 3 st"
    by (simp add: numeral_3_eq_3)
  from inst rb have le: "int (length (tokens best)) \<le> max_dec_steps ?F + 1"
    by simp
  let ?P = "\<lambda>hyps results best. ?l = Inr (2, hyps, results) \<and>
      iteration ?F V0 C0 2 (2, hyps, results) \<and>
      int 2 < max_dec_steps ?F \<and>
      beam_size ?F \<le> int (length results) \<and>
      search_loop ?F V0 C0 2 hyps results = Inr (2, hyps, results) \<and>
      (\<forall>st. \<not> iteration ?F V0 C0 3 st) \<and>
      run_beam_search ?F V0 C0 = Inr best \<and> tokens best = [2, 3] \<and>
      int (length (tokens best)) \<le> max_dec_steps ?F + 1"
  from l it m b ex ns3 rb le have "?P hyps results best"
    by (intro conjI)
  then have "\<exists>hyps results best. ?P hyps results best"
    by (intro exI)
  with p show ?thesis
    by (intro conjI)
qed

subsection \<open>The configuration is not checked\<close>

text \<open>
  Claim C8 says that \<open>min_dec_steps > max_dec_steps\<close> is detected before the loop and
  makes the search fail. With a minimum of 3 and a maximum of 1 the search runs and
  returns a hypothesis.
\<close>

theorem unchecked_min_steps_counterexample:
  "max_dec_steps (flags0 1 1 3) < min_dec_steps (flags0 1 1 3) \<and>
   map_sum id tokens (run_beam_search (flags0 1 1 3) V0 C0) = Inr [2, 5]"
  by code_simp

text \<open>
  Claim C8, amended. Nothing checks the configuration. With \<open>beam_size \<le> 0\<close> the loop
  body never runs and the search fails at the final selection with an index error on
  the empty pool, returning nothing. With \<open>min_dec_steps > max_dec_steps\<close> nothing is
  detected: no hypothesis ever enters the results, and, with a positive beam size and
  a model that keeps its contract, the loop runs all \<open>max_dec_steps\<close> steps and the
  search returns a hypothesis of the final, unfinished beam.
\<close>

theorem configuration_not_checked:
  "(beam_size F \<le> 0 \<longrightarrow>
      search_loop F V C 0 (init_hyps F V C) [] = Inr (0, [], []) \<and>
      run_beam_search F V C = Inl IndexError) \<and>
   (max_dec_steps F < min_dec_steps F \<and> iteration F V C n (steps, hyps, results) \<longrightarrow>
      results = []) \<and>
   (max_dec_steps F < min_dec_steps F \<and> 0 < beam_size F \<and> well_formed_model F C \<longrightarrow>
      (\<exists>best steps hyps.
           search_loop F V C 0 (init_hyps F V C) [] = Inr (steps, hyps, []) \<and>
           (0 \<le> max_dec_steps F \<longrightarrow> int steps = max_dec_steps F) \<and>
           run_beam_search F V C = Inr best \<and> best \<in> set hyps))"
proof -
  have 1: "beam_size F \<le> 0 \<longrightarrow>
      search_loop F V C 0 (init_hyps F V C) [] = Inr (0, [], []) \<and>
      run_beam_search F V C = Inl IndexError"
  proof
    assume "beam_size F \<le> 0"
    from search_loop_no_beam [OF this]
    show "search_loop F V C 0 (init_hyps F V C) [] = Inr (0, [], []) \<and>
          run_beam_search F V C = Inl IndexError"
      by (simp add: run_beam_search_def final_pool_def sort_hyps_def subscript_def)
  qed
  have 2: "max_dec_steps F < min_dec_steps F \<and> iteration F V C n (steps, hyps, results) \<longrightarrow>
      results = []"
  proof
    assume a: "max_dec_steps F < min_dec_steps F \<and> iteration F V C n (steps, hyps, results)"
    then have "iteration F V C n (steps, hyps, results)"
      by simp
    from iteration_stop [OF this] a show "results = []"
      by simp
  qed
  have 3: "max_dec_steps F < min_dec_steps F \<and> 0 < beam_size F \<and> well_formed_model F C \<longrightarrow>
      (\<exists>best steps hyps.
           search_loop F V C 0 (init_hyps F V C) [] = Inr (steps, hyps, []) \<and>
           (0 \<le> max_dec_steps F \<longrightarrow> int steps = max_dec_steps F) \<and>
           run_beam_search F V C = Inr best \<and> best \<in> set hyps)"
    using unfinished_beam_returned by blast
  from 1 2 3 show ?thesis
    by (intro conjI)
qed

theorem configuration_not_checked_witness:
  "beam_size (flags0 0 5 0) \<le> 0 \<and> run_beam_search (flags0 0 5 0) V0 C0 = Inl IndexError \<and>
   max_dec_steps (flags0 2 1 3) < min_dec_steps (flags0 2 1 3) \<and>
   0 < beam_size (flags0 2 1 3) \<and> well_formed_model (flags0 2 1 3) C0 \<and>
   (\<exists>hyps results. iteration (flags0 2 1 3) V0 C0 1 (1, hyps, results) \<and>
      map tokens hyps = [[2, 5], [2, 6]] \<and> results = []) \<and>
   (\<exists>best steps hyps.
      search_loop (flags0 2 1 3) V0 C0 0 (init_hyps (flags0 2 1 3) V0 C0) [] = Inr (steps, hyps, []) \<and>
      int steps = max_dec_steps (flags0 2 1 3) \<and>
      run_beam_search (flags0 2 1 3) V0 C0 = Inr best \<and> best \<in> set hyps \<and>
      tokens best = [2, 5])"
proof -
  let ?F = "flags0 2 1 3"
  let ?d = "decode_step ?F V0 C0 0 (init_hyps ?F V0 C0) []"
  have b: "beam_size (flags0 0 5 0) \<le> 0"
    by (simp add: flags0_def)
  with configuration_not_checked [of "flags0 0 5 0" V0 C0 0 0 "[]" "[]"]
  have r: "run_beam_search (flags0 0 5 0) V0 C0 = Inl IndexError"
    by simp
  have m: "max_dec_steps ?F < min_dec_steps ?F" and pos: "0 < beam_size ?F"
    and mx: "0 \<le> max_dec_steps ?F"
    by (simp_all add: flags0_def)
  note wf = stub_well_formed [of 1 3]
  have "map_sum id (map tokens \<circ> fst) ?d = Inr [[2, 5], [2, 6]]"
    by code_simp
  then obtain hyps results where d: "?d = Inr (hyps, results)" and t: "map tokens hyps = [[2, 5], [2, 6]]"
    by (cases ?d) auto
  have "loop_cond ?F 0 []"
    by (simp add: loop_cond_def flags0_def)
  from iteration.again [OF iteration.start this d]
  have it: "iteration ?F V0 C0 1 (1, hyps, results)"
    by simp
  note inst = configuration_not_checked [of ?F V0 C0 1 1 hyps results]
  from inst m it have e: "results = []"
    by simp
  let ?P = "\<lambda>hyps results. iteration ?F V0 C0 1 (1, hyps, results) \<and>
      map tokens hyps = [[2, 5], [2, 6]] \<and> results = []"
  from it t e have "?P hyps results"
    by (intro conjI)
  then have ex1: "\<exists>hyps results. ?P hyps results"
    by (intro exI)
  from inst [THEN conjunct2, THEN conjunct2] m pos wf
  obtain best steps hf where
    l: "search_loop ?F V0 C0 0 (init_hyps ?F V0 C0) [] = Inr (steps, hf, [])"
    and s: "0 \<le> max_dec_steps ?F \<longrightarrow> int steps = max_dec_steps ?F"
    and rb: "run_beam_search ?F V0 C0 = Inr best" and mem: "best \<in> set hf"
    by blast
  from s mx have s': "int steps = max_dec_steps ?F"
    by simp
  have "map_sum id tokens (run_beam_search ?F V0 C0) = Inr [2, 5]"
    by code_simp
  with rb have tb: "tokens best = [2, 5]"
    by simp
  let ?Q = "\<lambda>best steps hyps.
      search_loop ?F V0 C0 0 (init_hyps ?F V0 C0) [] = Inr (steps, hyps, []) \<and>
      int steps = max_dec_steps ?F \<and>
      run_beam_search ?F V0 C0 = Inr best \<and> best \<in> set hyps \<and> tokens best = [2, 5]"
  from l s' rb mem tb have "?Q best steps hf"
    by (intro conjI)
  then have ex2: "\<exists>best steps hyps. ?Q best steps hyps"
    by (intro exI)
  from b r m pos wf ex1 ex2 show ?thesis
    by (intro conjI)
qed

subsection \<open>The hypothesis returned\<close>





end
